theory Spec2Isabelle
  imports Complex_Main "HOL-Library.Word"
begin

section \<open>Raster images\<close>

text \<open>
  An \<open>ImageData\<close> of the source holds \<open>width\<close>, \<open>height\<close> and a \<open>Uint8ClampedArray\<close>
  of \<open>4 * width * height\<close> bytes, four per pixel. The model keeps the four bytes of a
  pixel together: \<open>data img ! idx\<close> is the pixel whose bytes are
  \<open>data[4 * idx]\<close> .. \<open>data[4 * idx + 3]\<close> in the source, so the source's
  \<open>imageData.data[idx * 4 + 3]\<close> is \<open>alpha (data img ! idx)\<close>.
  A byte is an \<open>8 word\<close>.
\<close>

type_synonym u8 = "8 word"

record pixel =
  red :: u8
  green :: u8
  blue :: u8
  alpha :: u8

record imageData =
  width :: nat
  height :: nat
  data :: "pixel list"

text \<open>The invariant of every \<open>ImageData\<close>: one pixel for each coordinate.\<close>

definition wellFormed :: "imageData \<Rightarrow> bool" where
  "wellFormed img \<longleftrightarrow> length (data img) = width img * height img"

section \<open>Numbers\<close>

text \<open>
  A JavaScript number is an IEEE 754 double. The model keeps it as the real it denotes and
  rounds after every operation, as the double arithmetic does: to the nearest double, a tie
  going to the one with the even significand. \<open>roundTiesToEven\<close> rounds a real to an
  integer; \<open>binade x\<close> is the exponent of \<open>x\<close> (not below -1022, where the subnormal
  numbers begin), \<open>ulp x\<close> the distance between neighbouring doubles there, and
  \<open>roundDouble x\<close> the double nearest to \<open>x\<close>. Infinity and NaN are not numbers of the
  model: no operation of the passes below overflows on bytes and a tolerance of ordinary
  size, and the one division has a divisor that is not zero where it is reached.
  \<open>Math.sqrt\<close> and \<open>Math.pow\<close> are taken to round correctly, as \<open>+\<close>, \<open>-\<close>, \<open>*\<close> and
  \<open>/\<close> do.
\<close>

definition roundTiesToEven :: "real \<Rightarrow> int" where
  "roundTiesToEven v =
     (let f = \<lfloor>v\<rfloor> in
      if v < real_of_int f + 0.5 then f
      else if v > real_of_int f + 0.5 then f + 1
      else if even f then f else f + 1)"

definition binade :: "real \<Rightarrow> int" where
  "binade x = max \<lfloor>log 2 \<bar>x\<bar>\<rfloor> (- 1022)"

definition ulp :: "real \<Rightarrow> real" where
  "ulp x = 2 powr of_int (binade x - 52)"

definition roundDouble :: "real \<Rightarrow> real" where
  "roundDouble x = of_int (roundTiesToEven (x / ulp x)) * ulp x"

definition fadd :: "real \<Rightarrow> real \<Rightarrow> real" where
  "fadd x y = roundDouble (x + y)"

definition fsub :: "real \<Rightarrow> real \<Rightarrow> real" where
  "fsub x y = roundDouble (x - y)"

definition fmul :: "real \<Rightarrow> real \<Rightarrow> real" where
  "fmul x y = roundDouble (x * y)"

definition fdiv :: "real \<Rightarrow> real \<Rightarrow> real" where
  "fdiv x y = roundDouble (x / y)"

definition fsqrt :: "real \<Rightarrow> real" where
  "fsqrt x = roundDouble (sqrt x)"

definition fpow :: "real \<Rightarrow> nat \<Rightarrow> real" where
  "fpow x n = roundDouble (x ^ n)"

section \<open>Colour sampler: \<open>getContrastingColor\<close>\<close>







section \<open>Pass 1: chroma key\<close>

text \<open>
  \<open>bgColor\<close> is the result of parsing the \<open>backgroundColor\<close> string; the parse itself
  is not modelled, its three numbers are the argument.
\<close>

record bgColor =
  bgR :: int
  bgG :: int
  bgB :: int

definition distance :: "bgColor \<Rightarrow> pixel \<Rightarrow> real" where
  "distance bg p =
     fsqrt (fadd (fadd (fpow (fsub (real (unat (red p))) (real_of_int (bgR bg))) 2)
                       (fpow (fsub (real (unat (green p))) (real_of_int (bgG bg))) 2))
                 (fpow (fsub (real (unat (blue p))) (real_of_int (bgB bg))) 2))"

text \<open>
  Storing a number into a \<open>Uint8ClampedArray\<close>: clamp to 0..255, then round to the nearest
  integer, a tie going to the even one.
\<close>

definition toUint8Clamp :: "real \<Rightarrow> u8" where
  "toUint8Clamp v = of_int (roundTiesToEven (min (max v 0) 255))"

definition featherAlpha :: "real \<Rightarrow> real \<Rightarrow> real" where
  "featherAlpha tolerance d =
     fmul (fdiv (fsub d tolerance) (fmul tolerance (roundDouble 0.3))) 255"

definition keyPixel :: "bgColor \<Rightarrow> real \<Rightarrow> pixel \<Rightarrow> pixel" where
  "keyPixel bg tolerance p =
     (let d = distance bg p in
      if d < tolerance then p\<lparr>alpha := 0\<rparr>
      else if d < fmul tolerance (roundDouble 1.3) then
        p\<lparr>alpha := toUint8Clamp (min (real (unat (alpha p))) (featherAlpha tolerance d))\<rparr>
      else p)"

definition chromaKey :: "imageData \<Rightarrow> bgColor \<Rightarrow> real \<Rightarrow> imageData" where
  "chromaKey img bg tolerance = img\<lparr>data := map (keyPixel bg tolerance) (data img)\<rparr>"

section \<open>Passes 2 and 3: erosion and dilation\<close>

text \<open>
  The indices \<open>ny * width + nx\<close> of the in-bounds neighbours of \<open>(x, y)\<close>, in the order
  the two loops over \<open>dy\<close> and \<open>dx\<close> visit them.
\<close>

definition neighbourhood :: "imageData \<Rightarrow> int \<Rightarrow> nat \<Rightarrow> nat \<Rightarrow> nat list" where
  "neighbourhood img radius y x =
     concat (map (\<lambda>dy. concat (map (\<lambda>dx.
        let ny = int y + dy; nx = int x + dx in
        if ny \<ge> 0 \<and> ny < int (height img) \<and> nx \<ge> 0 \<and> nx < int (width img)
        then [nat (ny * int (width img) + nx)] else [])
      [- radius .. radius])) [- radius .. radius])"

definition hasTransparentNeighbor :: "imageData \<Rightarrow> int \<Rightarrow> nat \<Rightarrow> nat \<Rightarrow> bool" where
  "hasTransparentNeighbor img radius y x =
     list_ex (\<lambda>nidx. alpha (data img ! nidx) = 0) (neighbourhood img radius y x)"

definition erodePixel :: "imageData \<Rightarrow> int \<Rightarrow> nat \<Rightarrow> nat \<Rightarrow> pixel" where
  "erodePixel img radius y x =
     (let p = data img ! (y * width img + x) in
      \<lparr>red = red p, green = green p, blue = blue p,
       alpha = (if hasTransparentNeighbor img radius y x then 0 else alpha p)\<rparr>)"

definition erode :: "imageData \<Rightarrow> int \<Rightarrow> imageData" where
  "erode img radius =
     \<lparr>width = width img, height = height img,
      data = concat (map (\<lambda>y. map (\<lambda>x. erodePixel img radius y x) [0..<width img])
                      [0..<height img])\<rparr>"

definition maxAlpha :: "imageData \<Rightarrow> int \<Rightarrow> nat \<Rightarrow> nat \<Rightarrow> u8" where
  "maxAlpha img radius y x =
     fold (\<lambda>nidx m. max m (alpha (data img ! nidx))) (neighbourhood img radius y x)
       (alpha (data img ! (y * width img + x)))"

definition dilatePixel :: "imageData \<Rightarrow> int \<Rightarrow> nat \<Rightarrow> nat \<Rightarrow> pixel" where
  "dilatePixel img radius y x =
     (let p = data img ! (y * width img + x) in
      \<lparr>red = red p, green = green p, blue = blue p, alpha = maxAlpha img radius y x\<rparr>)"

definition dilate :: "imageData \<Rightarrow> int \<Rightarrow> imageData" where
  "dilate img radius =
     \<lparr>width = width img, height = height img,
      data = concat (map (\<lambda>y. map (\<lambda>x. dilatePixel img radius y x) [0..<width img])
                      [0..<height img])\<rparr>"

section \<open>Pass 4: region filter\<close>

text \<open>
  The 4-connected neighbours that \<open>floodFill\<close> pushes for \<open>idx\<close>, in push order.
  \<open>floodFill\<close> is only called for \<open>i < width * height\<close>, so with \<open>width > 0\<close>; what
  \<open>pushNeighbors\<close> is at width 0, where the source computes with NaN, is never used.
\<close>

definition pushNeighbors :: "nat \<Rightarrow> nat \<Rightarrow> nat \<Rightarrow> nat list" where
  "pushNeighbors w h idx =
     (let x = idx mod w; y = idx div w in
      (if x > 0 then [idx - 1] else []) @
      (if int x < int w - 1 then [idx + 1] else []) @
      (if y > 0 then [idx - w] else []) @
      (if int y < int h - 1 then [idx + w] else []))"

text \<open>
  The test \<open>imageData.data[pixelIdx + 3] === 0\<close>. A read past the end of the array gives
  \<open>undefined\<close>, which is not \<open>0\<close>.
\<close>

definition transparentAt :: "pixel list \<Rightarrow> nat \<Rightarrow> bool" where
  "transparentAt dat idx \<longleftrightarrow> idx < length dat \<and> alpha (dat ! idx) = 0"

text \<open>
  The loop of \<open>floodFill\<close> ends: no index on the stack ever lies beyond the end of the
  last row that an index on the stack has reached (or beyond the image), and each iteration
  either marks one more index below that bound as visited or shortens the stack.
\<close>

definition rowEnd :: "nat \<Rightarrow> nat \<Rightarrow> nat" where
  "rowEnd w idx = (if w = 0 then Suc idx else (idx div w + 1) * w)"

primrec stackBound :: "nat \<Rightarrow> nat \<Rightarrow> nat list \<Rightarrow> nat" where
  "stackBound w h [] = w * h"
| "stackBound w h (idx # stack) = max (rowEnd w idx) (stackBound w h stack)"

definition unvisited :: "nat \<Rightarrow> nat \<Rightarrow> nat list \<Rightarrow> nat set \<Rightarrow> nat" where
  "unvisited w h stack visited = card ({..<stackBound w h stack} - visited)"

lemma rowEnd_gt: "idx < rowEnd w idx"
proof (cases "w = 0")
  case True
  then show ?thesis by (simp add: rowEnd_def)
next
  case False
  then have "idx mod w < w" by simp
  moreover have "idx = idx div w * w + idx mod w" by simp
  ultimately have "idx < idx div w * w + w" by linarith
  then show ?thesis using False by (simp add: rowEnd_def)
qed

lemma div_row: "r < w \<Longrightarrow> (q * w + r) div w = (q::nat)"
  by simp

lemma rowEnd_pushNeighbors:
  assumes "p \<in> set (pushNeighbors w h idx)"
  shows "rowEnd w p \<le> max (rowEnd w idx) (w * h)"
proof (cases "w = 0")
  case True
  then show ?thesis
    using assms by (auto simp: pushNeighbors_def rowEnd_def split: if_splits)
next
  case False
  then have w: "0 < w" by simp
  consider (left) "idx mod w > 0" "p = idx - 1"
    | (right) "int (idx mod w) < int w - 1" "p = idx + 1"
    | (up) "idx div w > 0" "p = idx - w"
    | (down) "int (idx div w) < int h - 1" "p = idx + w"
    using assms by (auto simp: pushNeighbors_def Let_def split: if_splits)
  then show ?thesis
  proof cases
    case left
    have "idx = idx div w * w + idx mod w" by simp
    then have e: "idx - 1 = idx div w * w + (idx mod w - 1)" using left(1) by linarith
    have "idx mod w - 1 < w" using w by (simp add: less_imp_diff_less)
    then have "(idx - 1) div w = idx div w" by (subst e) (rule div_row)
    then show ?thesis using left w by (simp add: rowEnd_def)
  next
    case right
    have "idx = idx div w * w + idx mod w" by simp
    then have e: "idx + 1 = idx div w * w + (idx mod w + 1)" by linarith
    have "idx mod w + 1 < w" using right(1) by linarith
    then have "(idx + 1) div w = idx div w" by (subst e) (rule div_row)
    then show ?thesis using right w by (simp add: rowEnd_def)
  next
    case up
    have "w \<le> idx"
    proof (rule ccontr)
      assume "\<not> w \<le> idx"
      then have "idx div w = 0" by simp
      then show False using up(1) by simp
    qed
    then have "idx div w = ((idx - w) + w) div w" by simp
    also have "\<dots> = (idx - w) div w + 1" using w by (simp only: div_add_self2)
    finally have "(idx - w) div w = idx div w - 1" by simp
    then show ?thesis using up w by (simp add: rowEnd_def)
  next
    case down
    have "(idx + w) div w = idx div w + 1" using w by simp
    moreover have "idx div w + 2 \<le> h" using down(1) by linarith
    then have "(idx div w + 2) * w \<le> h * w" by (rule mult_le_mono1)
    ultimately show ?thesis using down w by (simp add: rowEnd_def mult.commute)
  qed
qed

lemma stackBound_ge: "w * h \<le> stackBound w h stack"
  by (induction stack) (simp_all add: le_max_iff_disj)

lemma stackBound_append:
  "stackBound w h (ps @ stack) = max (stackBound w h ps) (stackBound w h stack)"
proof (induction ps)
  case Nil
  then show ?case using stackBound_ge [of w h stack] by (simp add: max.absorb2)
next
  case (Cons p ps)
  then show ?case by (simp add: max.assoc)
qed

lemma stackBound_le:
  assumes "\<forall>p \<in> set ps. rowEnd w p \<le> b" "w * h \<le> b"
  shows "stackBound w h ps \<le> b"
  using assms by (induction ps) simp_all

lemma stackBound_push:
  "stackBound w h (rev (pushNeighbors w h idx) @ stack) \<le> stackBound w h (idx # stack)"
proof -
  have "stackBound w h (rev (pushNeighbors w h idx)) \<le> max (rowEnd w idx) (w * h)"
    by (rule stackBound_le) (simp_all add: rowEnd_pushNeighbors)
  also have "\<dots> \<le> stackBound w h (idx # stack)"
    using stackBound_ge [of w h stack] by simp
  finally show ?thesis
    by (simp add: stackBound_append)
qed

lemma unvisited_skip:
  "unvisited w h stack visited \<le> unvisited w h (idx # stack) visited"
  unfolding unvisited_def
  by (rule card_mono) auto

lemma unvisited_visit:
  assumes "idx \<notin> visited" "stackBound w h stack' \<le> stackBound w h (idx # stack)"
  shows "unvisited w h stack' (insert idx visited) < unvisited w h (idx # stack) visited"
  unfolding unvisited_def
proof (rule psubset_card_mono)
  have "idx < stackBound w h (idx # stack)"
    using rowEnd_gt [of idx w] by simp
  then show "{..<stackBound w h stack'} - insert idx visited
      \<subset> {..<stackBound w h (idx # stack)} - visited"
    using assms by auto
qed simp

text \<open>
  The \<open>while (stack.length > 0)\<close> loop. The head of \<open>stack\<close> is the top of the source's
  stack, \<open>region\<close> grows at its end as \<open>region.push\<close> does, and \<open>sz\<close> is the source's
  \<open>size\<close>.
\<close>

function floodLoop ::
  "nat \<Rightarrow> nat \<Rightarrow> pixel list \<Rightarrow> nat list \<Rightarrow> nat set \<Rightarrow> nat list \<Rightarrow> nat
     \<Rightarrow> nat set \<times> nat list \<times> nat" where
  "floodLoop w h dat [] visited region sz = (visited, region, sz)"
| "floodLoop w h dat (idx # stack) visited region sz =
     (if idx \<in> visited then floodLoop w h dat stack visited region sz
      else if transparentAt dat idx then floodLoop w h dat stack (insert idx visited) region sz
      else floodLoop w h dat (rev (pushNeighbors w h idx) @ stack) (insert idx visited)
             (region @ [idx]) (sz + 1))"
  by pat_completeness auto
termination
proof (relation "inv_image (less_than <*lex*> less_than)
    (\<lambda>(w, h, dat, stack, visited, region, sz). (unvisited w h stack visited, length stack))")
  show "wf (inv_image (less_than <*lex*> less_than)
    (\<lambda>(w, h, dat, stack, visited, region, sz). (unvisited w h stack visited, length stack)))"
    by auto
next
  fix w h :: nat and dat :: "pixel list" and idx :: nat and stack :: "nat list"
    and visited :: "nat set" and region :: "nat list" and sz :: nat
  assume "idx \<in> visited"
  then show "((w, h, dat, stack, visited, region, sz), w, h, dat, idx # stack, visited, region, sz)
    \<in> inv_image (less_than <*lex*> less_than)
    (\<lambda>(w, h, dat, stack, visited, region, sz). (unvisited w h stack visited, length stack))"
    using unvisited_skip [of w h stack visited idx] by auto
next
  fix w h :: nat and dat :: "pixel list" and idx :: nat and stack :: "nat list"
    and visited :: "nat set" and region :: "nat list" and sz :: nat
  assume "idx \<notin> visited"
  then show "((w, h, dat, stack, insert idx visited, region, sz), w, h, dat, idx # stack, visited, region, sz)
    \<in> inv_image (less_than <*lex*> less_than)
    (\<lambda>(w, h, dat, stack, visited, region, sz). (unvisited w h stack visited, length stack))"
    using unvisited_visit [of idx visited w h stack stack] by simp
next
  fix w h :: nat and dat :: "pixel list" and idx :: nat and stack :: "nat list"
    and visited :: "nat set" and region :: "nat list" and sz :: nat
  assume "idx \<notin> visited"
  then show "((w, h, dat, rev (pushNeighbors w h idx) @ stack, insert idx visited, region @ [idx], sz + 1),
      w, h, dat, idx # stack, visited, region, sz)
    \<in> inv_image (less_than <*lex*> less_than)
    (\<lambda>(w, h, dat, stack, visited, region, sz). (unvisited w h stack visited, length stack))"
    using unvisited_visit [OF _ stackBound_push, of idx visited w h stack] by simp
qed

text \<open>
  \<open>floodFill\<close>: the loop, then the removal of a region below \<open>minRegionSize\<close>.
  \<open>minRegionSize\<close>, \<open>imageData\<close>, \<open>visited\<close> and the canvas size are variables of the
  enclosing function that the closure reads and writes; here they are arguments and results.
\<close>

definition clearRegion :: "pixel list \<Rightarrow> nat list \<Rightarrow> pixel list" where
  "clearRegion dat region =
     fold (\<lambda>pixelIdx d. d[pixelIdx := (d ! pixelIdx)\<lparr>alpha := 0\<rparr>]) region dat"

definition floodFill ::
  "nat \<Rightarrow> nat \<Rightarrow> nat \<Rightarrow> pixel list \<times> nat set \<Rightarrow> nat \<Rightarrow> (pixel list \<times> nat set) \<times> nat" where
  "floodFill minRegionSize w h s startIdx =
     (case s of (dat, visited) \<Rightarrow>
        (case floodLoop w h dat [startIdx] visited [] 0 of (visited', region, sz) \<Rightarrow>
           ((if sz < minRegionSize then clearRegion dat region else dat, visited'), sz)))"

text \<open>One iteration of the loop that looks for seeds.\<close>

definition scanStep ::
  "nat \<Rightarrow> nat \<Rightarrow> nat \<Rightarrow> nat \<Rightarrow> pixel list \<times> nat set \<Rightarrow> pixel list \<times> nat set" where
  "scanStep minRegionSize w h i s =
     (if i \<notin> snd s \<and> alpha (fst s ! i) > 0 then fst (floodFill minRegionSize w h s i) else s)"

text \<open>
  The seed loop over a given list of indices; the source scans \<open>0, 1, .., width * height - 1\<close>.
\<close>

definition removeSmallRegions :: "nat \<Rightarrow> nat list \<Rightarrow> imageData \<Rightarrow> imageData" where
  "removeSmallRegions minRegionSize order img =
     img\<lparr>data := fst (fold (scanStep minRegionSize (width img) (height img)) order (data img, {}))\<rparr>"

definition regionFilter :: "nat \<Rightarrow> imageData \<Rightarrow> imageData" where
  "regionFilter minRegionSize img =
     removeSmallRegions minRegionSize [0..<width img * height img] img"

section \<open>The pipeline: \<open>removeBackgroundColor\<close>\<close>

text \<open>
  The model starts from the \<open>ImageData\<close> read back from the canvas and ends with the one
  put back onto it. When the image fails to load, or no drawing context is available, the
  source rejects the promise before any pass runs.
\<close>

definition removeBackgroundColor :: "imageData \<Rightarrow> bgColor \<Rightarrow> real \<Rightarrow> imageData" where
  "removeBackgroundColor img bg tolerance =
     (let imageData = chromaKey img bg tolerance;
          imageData = erode imageData 1;
          imageData = erode imageData 1;
          imageData = dilate imageData 1;
          imageData = dilate imageData 1;
          minRegionSize = 50
      in regionFilter minRegionSize imageData)"

text \<open>
  The pipeline as the specification words it, with \<open>minRegionSize\<close> supplied by the caller.
\<close>

definition specPipeline :: "nat \<Rightarrow> imageData \<Rightarrow> bgColor \<Rightarrow> real \<Rightarrow> imageData" where
  "specPipeline minRegionSize img bg tolerance =
     regionFilter minRegionSize
       (dilate (dilate (erode (erode (chromaKey img bg tolerance) 1) 1) 1) 1)"

section \<open>Sample inputs\<close>

text \<open>
  \<open>greenKey\<close> is the parse of \<open>'#00FF00'\<close>. \<open>scenario\<close> is the 10 x 10 green image with
  the 2 x 2 red square at (4, 4) .. (5, 5), and \<open>keyedScenario\<close> is what the chroma key
  makes of it.
\<close>

definition greenKey :: bgColor where
  "greenKey = \<lparr>bgR = 0, bgG = 255, bgB = 0\<rparr>"

definition redPixel :: pixel where
  "redPixel = \<lparr>red = 255, green = 0, blue = 0, alpha = 255\<rparr>"

definition greenPixel :: pixel where
  "greenPixel = \<lparr>red = 0, green = 255, blue = 0, alpha = 255\<rparr>"

definition nearKeyPixel :: pixel where
  "nearKeyPixel = \<lparr>red = 50, green = 255, blue = 1, alpha = 255\<rparr>"

definition featherPixel :: pixel where
  "featherPixel = \<lparr>red = 52, green = 255, blue = 0, alpha = 255\<rparr>"


definition redLevel :: "u8 \<Rightarrow> pixel" where
  "redLevel v = \<lparr>red = v, green = 0, blue = 0, alpha = 255\<rparr>"

definition twoPixels :: imageData where
  "twoPixels = \<lparr>width = 2, height = 1, data = [redPixel, greenPixel\<lparr>alpha := 0\<rparr>]\<rparr>"

definition threePixels :: imageData where
  "threePixels = \<lparr>width = 3, height = 1,
     data = [redPixel, redPixel, greenPixel\<lparr>alpha := 0\<rparr>]\<rparr>"

definition speck :: imageData where
  "speck = \<lparr>width = 1, height = 1, data = [redPixel]\<rparr>"

definition scenario :: imageData where
  "scenario = \<lparr>width = 10, height = 10,
     data = map (\<lambda>i. if i \<in> {44, 45, 54, 55} then redPixel else greenPixel) [0..<100]\<rparr>"

definition keyedScenario :: imageData where
  "keyedScenario = \<lparr>width = 10, height = 10,
     data = map (\<lambda>i. if i \<in> {44, 45, 54, 55} then redPixel else greenPixel\<lparr>alpha := 0\<rparr>)
       [0..<100]\<rparr>"

text \<open>The three colour channels of a pixel.\<close>

definition rgbOf :: "pixel \<Rightarrow> u8 \<times> u8 \<times> u8" where
  "rgbOf p = (red p, green p, blue p)"

section \<open>Connected regions\<close>

text \<open>
  The region of a seed: the opaque pixels that a path of opaque 4-neighbours joins to it.
\<close>

definition opaqueAt :: "pixel list \<Rightarrow> nat \<Rightarrow> bool" where
  "opaqueAt dat idx \<longleftrightarrow> idx < length dat \<and> alpha (dat ! idx) > 0"

inductive_set connectedRegion :: "nat \<Rightarrow> nat \<Rightarrow> pixel list \<Rightarrow> nat \<Rightarrow> nat set"
  for w h :: nat and dat :: "pixel list" and s :: nat where
  seed: "opaqueAt dat s \<Longrightarrow> s \<in> connectedRegion w h dat s"
| step: "i \<in> connectedRegion w h dat s \<Longrightarrow> j \<in> set (pushNeighbors w h i) \<Longrightarrow> opaqueAt dat j
    \<Longrightarrow> j \<in> connectedRegion w h dat s"

text \<open>
  What the region filter leaves at index \<open>i\<close>, and the invariant of the seed loop: every
  visited opaque pixel has its neighbours visited, and a visited pixel holds its final value.
\<close>

definition closedUnder :: "nat \<Rightarrow> nat \<Rightarrow> pixel list \<Rightarrow> nat set \<Rightarrow> bool" where
  "closedUnder w h dat V \<longleftrightarrow> (\<forall>v \<in> V. opaqueAt dat v \<longrightarrow> set (pushNeighbors w h v) \<subseteq> V)"

definition filteredPixel :: "nat \<Rightarrow> nat \<Rightarrow> nat \<Rightarrow> pixel list \<Rightarrow> nat \<Rightarrow> pixel" where
  "filteredPixel minRegionSize w h dat i =
     (if opaqueAt dat i \<and> card (connectedRegion w h dat i) < minRegionSize
      then (dat ! i)\<lparr>alpha := 0\<rparr> else dat ! i)"

definition scanInv :: "nat \<Rightarrow> nat \<Rightarrow> nat \<Rightarrow> pixel list \<Rightarrow> pixel list \<times> nat set \<Rightarrow> bool" where
  "scanInv minRegionSize w h dat0 s \<longleftrightarrow>
     length (fst s) = length dat0 \<and> closedUnder w h dat0 (snd s) \<and>
     (\<forall>i < length dat0. fst s ! i =
        (if i \<in> snd s then filteredPixel minRegionSize w h dat0 i else dat0 ! i))"

text \<open>The image that the region filter receives: passes 1 to 3.\<close>

definition cleaned :: "imageData \<Rightarrow> bgColor \<Rightarrow> real \<Rightarrow> imageData" where
  "cleaned img bg tolerance = dilate (dilate (erode (erode (chromaKey img bg tolerance) 1) 1) 1) 1"

text \<open>An image with no opaque pixel left.\<close>

definition allTransparent :: "imageData \<Rightarrow> bool" where
  "allTransparent img \<longleftrightarrow> (\<forall>p \<in> set (data img). alpha p = 0)"

section \<open>Rows of a raster\<close>

lemma length_rows:
  "length (concat (map (\<lambda>y. map (f y) [0..<w]) [0..<h])) = w * h"
  by (induction h) simp_all

lemma nth_rows:
  assumes "i < w * h"
  shows "concat (map (\<lambda>y. map (f y) [0..<w]) [0..<h]) ! i = f (i div w) (i mod w)"
  using assms
proof (induction h)
  case 0
  then show ?case by simp
next
  case (Suc h)
  have w: "0 < w" using Suc.prems by (cases w) simp_all
  show ?case
  proof (cases "i < w * h")
    case True
    then show ?thesis
      using Suc.IH by (simp add: nth_append length_rows)
  next
    case False
    then have lo: "w * h \<le> i" by simp
    have hi: "i - w * h < w" using Suc.prems lo by simp
    have i: "i = (i - w * h) + h * w" using lo by (simp add: mult.commute)
    have d: "i div w = h"
      by (subst i) (simp add: hi w)
    have m: "i mod w = i - w * h"
      by (subst i) (simp add: hi)
    show ?thesis
      using False hi by (simp add: nth_append length_rows d m)
  qed
qed

section \<open>Erosion and dilation, pixel by pixel\<close>

lemma wellFormed_erode: "wellFormed (erode img radius)"
  by (simp add: wellFormed_def erode_def length_rows)

lemma wellFormed_dilate: "wellFormed (dilate img radius)"
  by (simp add: wellFormed_def dilate_def length_rows)

lemma erode_nth:
  assumes "i < width img * height img"
  shows "data (erode img radius) ! i = erodePixel img radius (i div width img) (i mod width img)"
  using assms by (simp add: erode_def nth_rows)

lemma dilate_nth:
  assumes "i < width img * height img"
  shows "data (dilate img radius) ! i = dilatePixel img radius (i div width img) (i mod width img)"
  using assms by (simp add: dilate_def nth_rows)

lemma fold_max_ge: "(m::u8) \<le> fold (\<lambda>n m. max m (g n)) ns m"
proof (induction ns arbitrary: m)
  case Nil
  then show ?case by simp
next
  case (Cons n ns)
  have "m \<le> max m (g n)" by simp
  also have "\<dots> \<le> fold (\<lambda>n m. max m (g n)) ns (max m (g n))" by (rule Cons.IH)
  finally show ?case by simp
qed

lemma erode_alpha_le:
  assumes "i < width img * height img"
  shows "alpha (data (erode img radius) ! i) \<le> alpha (data img ! i)"
proof -
  have w: "0 < width img" using assms by (cases "width img") simp_all
  show ?thesis
    using assms by (simp add: erode_nth erodePixel_def Let_def w)
qed

lemma dilate_alpha_ge:
  assumes "i < width img * height img"
  shows "alpha (data img ! i) \<le> alpha (data (dilate img radius) ! i)"
proof -
  have w: "0 < width img" using assms by (cases "width img") simp_all
  show ?thesis
    using assms by (simp add: dilate_nth dilatePixel_def maxAlpha_def Let_def w fold_max_ge)
qed

section \<open>Rounding to an integer\<close>

lemma unsigned_le_255: "(unsigned (w::u8) :: real) \<le> 255"
proof -
  have "unat w < 2 ^ 8" using unsigned_less [of w, where ?'a = nat] by simp
  then have "unat w \<le> 255" by simp
  then have "real (unat w) \<le> real 255" by (simp only: of_nat_le_iff)
  then show ?thesis by simp
qed

lemma roundTiesToEven_of_int [simp]: "roundTiesToEven (real_of_int k) = k"
  by (simp add: roundTiesToEven_def)

lemma roundTiesToEven_unsigned [simp]: "roundTiesToEven (unsigned (w::u8)) = uint w"
  using roundTiesToEven_of_int [of "uint w"] by simp

lemma roundTiesToEven_mono:
  assumes "x \<le> y"
  shows "roundTiesToEven x \<le> roundTiesToEven y"
proof -
  have fl: "\<lfloor>x\<rfloor> \<le> \<lfloor>y\<rfloor>" using assms by (rule floor_mono)
  show ?thesis
  proof (cases "\<lfloor>x\<rfloor> = \<lfloor>y\<rfloor>")
    case True
    then show ?thesis
      using assms by (auto simp: roundTiesToEven_def Let_def)
  next
    case False
    then have "\<lfloor>x\<rfloor> + 1 \<le> \<lfloor>y\<rfloor>" using fl by simp
    moreover have "roundTiesToEven x \<le> \<lfloor>x\<rfloor> + 1"
      by (simp add: roundTiesToEven_def Let_def)
    moreover have "\<lfloor>y\<rfloor> \<le> roundTiesToEven y"
      by (simp add: roundTiesToEven_def Let_def)
    ultimately show ?thesis by linarith
  qed
qed

lemma roundTiesToEven_range:
  assumes "0 \<le> v" "v \<le> 255"
  shows "0 \<le> roundTiesToEven v \<and> roundTiesToEven v \<le> 255"
proof -
  have "roundTiesToEven 0 \<le> roundTiesToEven v"
    using assms(1) by (rule roundTiesToEven_mono)
  moreover have "roundTiesToEven v \<le> roundTiesToEven 255"
    using assms(2) by (rule roundTiesToEven_mono)
  moreover have "roundTiesToEven 0 = 0" using roundTiesToEven_of_int [of 0] by simp
  moreover have "roundTiesToEven 255 = 255" using roundTiesToEven_of_int [of 255] by simp
  ultimately show ?thesis by simp
qed

section \<open>Rounding to a double\<close>

lemma ulp_pos: "0 < ulp x"
  by (simp add: ulp_def)

lemma roundDouble_zero [simp]: "roundDouble 0 = 0"
  using roundTiesToEven_of_int [of 0] by (simp add: roundDouble_def)

lemma binade_eq:
  assumes "0 < x" and "2 powr of_int e \<le> x" and "x < 2 powr of_int (e + 1)" and "- 1022 \<le> e"
  shows "binade x = e"
proof -
  have "\<lfloor>log 2 x\<rfloor> = e"
    using assms(1-3) by (simp add: floor_log_eq_powr_iff)
  then show ?thesis using assms(1,4) by (simp add: binade_def)
qed

lemma roundDouble_eval:
  assumes "0 < x" and "2 powr of_int e \<le> x" and "x < 2 powr of_int (e + 1)" and "- 1022 \<le> e"
  shows "roundDouble x
     = of_int (roundTiesToEven (x / 2 powr of_int (e - 52))) * 2 powr of_int (e - 52)"
  by (simp add: roundDouble_def ulp_def binade_eq [OF assms])

lemma roundDouble_nonneg:
  assumes "0 \<le> x"
  shows "0 \<le> roundDouble x"
proof -
  have "0 \<le> x / ulp x" using assms ulp_pos [of x] by simp
  then have "roundTiesToEven 0 \<le> roundTiesToEven (x / ulp x)" by (rule roundTiesToEven_mono)
  then have "0 \<le> roundTiesToEven (x / ulp x)" using roundTiesToEven_of_int [of 0] by simp
  then show ?thesis using ulp_pos [of x] by (simp add: roundDouble_def)
qed

lemma binade_mono:
  assumes "0 < x" and "x \<le> y"
  shows "binade x \<le> binade y"
proof -
  have "log 2 x \<le> log 2 y" using assms by simp
  then have "\<lfloor>log 2 x\<rfloor> \<le> \<lfloor>log 2 y\<rfloor>" by (rule floor_mono)
  then show ?thesis using assms by (simp add: binade_def)
qed

lemma below_next_binade:
  assumes "0 < x"
  shows "x < 2 powr of_int (binade x + 1)"
proof -
  have "\<lfloor>log 2 x\<rfloor> \<le> binade x" using assms by (simp add: binade_def)
  then have "log 2 x < of_int (binade x + 1)" by linarith
  then have "2 powr log 2 x < 2 powr of_int (binade x + 1)" by (simp only: powr_less_cancel_iff)
  then show ?thesis using assms by simp
qed

lemma above_binade:
  assumes "0 < x" and "- 1022 < binade x"
  shows "2 powr of_int (binade x) \<le> x"
proof -
  have "binade x = \<lfloor>log 2 x\<rfloor>" using assms by (simp add: binade_def max_def split: if_splits)
  then have "of_int (binade x) \<le> log 2 x" by simp
  then have "2 powr of_int (binade x) \<le> 2 powr log 2 x" by (simp only: powr_le_cancel_iff)
  then show ?thesis using assms(1) by simp
qed

lemma roundDouble_upper:
  assumes "0 < x"
  shows "roundDouble x \<le> 2 powr of_int (binade x + 1)"
proof -
  have u: "2 powr of_int (binade x + 1) = 2 ^ 53 * ulp x"
  proof -
    have "of_int (binade x + 1) = of_int (binade x - 52) + (53::real)" by simp
    then have "2 powr of_int (binade x + 1) = 2 powr of_int (binade x - 52) * 2 powr (53::real)"
      by (simp only: powr_add)
    then show ?thesis by (simp add: ulp_def)
  qed
  have "x < 2 ^ 53 * ulp x" using below_next_binade [OF assms] by (simp only: u)
  then have "x / ulp x < 2 ^ 53" using ulp_pos [of x] by (simp only: pos_divide_less_eq)
  then have "x / ulp x \<le> 2 ^ 53" by simp
  then have "roundTiesToEven (x / ulp x) \<le> roundTiesToEven (2 ^ 53)"
    by (rule roundTiesToEven_mono)
  moreover have "roundTiesToEven (2 ^ 53) = 2 ^ 53"
    using roundTiesToEven_of_int [of "2 ^ 53"] by simp
  ultimately have "real_of_int (roundTiesToEven (x / ulp x)) \<le> 2 ^ 53"
    by (metis of_int_le_iff of_int_numeral of_int_power)
  then have "real_of_int (roundTiesToEven (x / ulp x)) * ulp x \<le> 2 ^ 53 * ulp x"
    using ulp_pos [of x] by (simp only: mult_le_cancel_right_pos)
  then show ?thesis unfolding roundDouble_def u .
qed

lemma roundDouble_lower:
  assumes "0 < x" and "- 1022 < binade x"
  shows "2 powr of_int (binade x) \<le> roundDouble x"
proof -
  have u: "2 powr of_int (binade x) = 2 ^ 52 * ulp x"
  proof -
    have "of_int (binade x) = of_int (binade x - 52) + (52::real)" by simp
    then have "2 powr of_int (binade x) = 2 powr of_int (binade x - 52) * 2 powr (52::real)"
      by (simp only: powr_add)
    then show ?thesis by (simp add: ulp_def)
  qed
  have "2 ^ 52 * ulp x \<le> x" using above_binade [OF assms] by (simp only: u)
  then have "2 ^ 52 \<le> x / ulp x" using ulp_pos [of x] by (simp only: pos_le_divide_eq)
  then have "roundTiesToEven (2 ^ 52) \<le> roundTiesToEven (x / ulp x)"
    by (rule roundTiesToEven_mono)
  moreover have "roundTiesToEven (2 ^ 52) = 2 ^ 52"
    using roundTiesToEven_of_int [of "2 ^ 52"] by simp
  ultimately have "2 ^ 52 \<le> real_of_int (roundTiesToEven (x / ulp x))"
    by (metis of_int_le_iff of_int_numeral of_int_power)
  then have "2 ^ 52 * ulp x \<le> real_of_int (roundTiesToEven (x / ulp x)) * ulp x"
    using ulp_pos [of x] by (simp only: mult_le_cancel_right_pos)
  then show ?thesis unfolding roundDouble_def u .
qed

lemma roundDouble_mono:
  assumes "0 \<le> x" and "x \<le> y"
  shows "roundDouble x \<le> roundDouble y"
proof (cases "x = 0")
  case True
  then show ?thesis using assms roundDouble_nonneg [of y] by simp
next
  case False
  then have x: "0 < x" and y: "0 < y" using assms by simp_all
  have le: "binade x \<le> binade y" using x assms(2) by (rule binade_mono)
  show ?thesis
  proof (cases "binade x = binade y")
    case True
    then have u: "ulp x = ulp y" by (simp add: ulp_def)
    have "x / ulp y \<le> y / ulp y" using assms(2) ulp_pos [of y] by (simp add: divide_right_mono)
    then have "roundTiesToEven (x / ulp y) \<le> roundTiesToEven (y / ulp y)"
      by (rule roundTiesToEven_mono)
    then show ?thesis using ulp_pos [of y] by (simp add: roundDouble_def u)
  next
    case False
    then have lt: "binade x + 1 \<le> binade y" using le by simp
    have "- 1022 \<le> binade x" by (simp add: binade_def)
    then have big: "- 1022 < binade y" using lt by simp
    have "roundDouble x \<le> 2 powr of_int (binade x + 1)" using x by (rule roundDouble_upper)
    also have "\<dots> \<le> 2 powr of_int (binade y)" using lt by simp
    also have "\<dots> \<le> roundDouble y" using y big by (rule roundDouble_lower)
    finally show ?thesis .
  qed
qed

lemma two_powr_diff: "2 powr (real a - real b) = 2 ^ a / (2 ^ b :: real)"
  by (simp add: powr_diff powr_realpow)

lemma roundDouble_fine:
  assumes "2 ^ 52 / 2 ^ n \<le> x" and "x < 2 ^ 53 / 2 ^ n" and "n \<le> 1074"
  shows "roundDouble x = of_int (roundTiesToEven (x * 2 ^ n)) / 2 ^ n"
proof -
  have x: "0 < x"
  proof -
    have "(0::real) < 2 ^ 52 / 2 ^ n" by simp
    then show ?thesis using assms(1) by linarith
  qed
  have a: "2 powr of_int (52 - int n) = 2 ^ 52 / (2 ^ n :: real)"
    using two_powr_diff [of 52 n] by simp
  have b: "2 powr of_int (52 - int n + 1) = 2 ^ 53 / (2 ^ n :: real)"
    using two_powr_diff [of 53 n] by (simp add: algebra_simps)
  have c: "2 powr of_int (52 - int n - 52) = 1 / (2 ^ n :: real)"
    using two_powr_diff [of 0 n] by simp
  have "binade x = 52 - int n"
  proof (rule binade_eq)
    show "0 < x" by (rule x)
    show "2 powr of_int (52 - int n) \<le> x" using assms(1) by (simp only: a)
    show "x < 2 powr of_int (52 - int n + 1)" using assms(2) by (simp only: b)
    show "- 1022 \<le> 52 - int n" using assms(3) by simp
  qed
  then have "ulp x = 1 / 2 ^ n" unfolding ulp_def using c by simp
  then show ?thesis by (simp add: roundDouble_def)
qed

lemma roundDouble_coarse:
  assumes "2 ^ 52 * 2 ^ n \<le> x" and "x < 2 ^ 53 * 2 ^ n"
  shows "roundDouble x = of_int (roundTiesToEven (x / 2 ^ n)) * 2 ^ n"
proof -
  have x: "0 < x"
  proof -
    have "(0::real) < 2 ^ 52 * 2 ^ n" by simp
    then show ?thesis using assms(1) by linarith
  qed
  have a: "2 powr of_int (52 + int n) = 2 ^ 52 * (2 ^ n :: real)"
    by (simp add: powr_add powr_realpow)
  have b: "2 powr of_int (52 + int n + 1) = 2 ^ 53 * (2 ^ n :: real)"
    by (simp add: powr_add powr_realpow)
  have c: "2 powr of_int (52 + int n - 52) = (2 ^ n :: real)"
    by (simp add: powr_realpow)
  have "binade x = 52 + int n"
  proof (rule binade_eq)
    show "0 < x" by (rule x)
    show "2 powr of_int (52 + int n) \<le> x" using assms(1) by (simp only: a)
    show "x < 2 powr of_int (52 + int n + 1)" using assms(2) by (simp only: b)
    show "- 1022 \<le> 52 + int n" by simp
  qed
  then have "ulp x = 2 ^ n" unfolding ulp_def using c by simp
  then show ?thesis by (simp add: roundDouble_def)
qed

lemma roundDouble_nat:
  assumes "n < 2 ^ 53"
  shows "roundDouble (real n) = real n"
proof (cases "n = 0")
  case True
  then show ?thesis by simp
next
  case False
  then have "1 \<le> n" by simp
  then obtain k where k: "2 ^ k \<le> n" "n < 2 ^ (k + 1)"
    using ex_power_ivl1 [of 2 n] by auto
  have "(2::nat) ^ k < 2 ^ 53" using k(1) assms by simp
  then have k53: "k < 53" by (simp only: power_strict_increasing_iff [of 2 k 53])
  define m where "m = 52 - k"
  have km: "k + m = 52" using k53 by (simp add: m_def)
  have p52: "(2::real) ^ 52 = 2 ^ k * 2 ^ m" using km by (simp add: power_add [symmetric])
  have p53: "(2::real) ^ 53 = 2 ^ (k + 1) * 2 ^ m"
    using km by (simp add: power_add [symmetric])
  have lo: "(2::real) ^ 52 / 2 ^ m \<le> real n"
  proof -
    have "real (2 ^ k) \<le> real n" using k(1) by (simp only: of_nat_le_iff)
    then have "(2::real) ^ k \<le> real n" by simp
    moreover have "(2::real) ^ 52 / 2 ^ m = 2 ^ k" unfolding p52 by simp
    ultimately show ?thesis by (simp only:)
  qed
  have hi: "real n < 2 ^ 53 / 2 ^ m"
  proof -
    have "real n < real (2 ^ (k + 1))" using k(2) by (simp only: of_nat_less_iff)
    then have "real n < 2 ^ (k + 1)" by simp
    moreover have "(2::real) ^ 53 / 2 ^ m = 2 ^ (k + 1)" unfolding p53 by simp
    ultimately show ?thesis by (simp only:)
  qed
  have "m \<le> 1074" by (simp add: m_def)
  then have "roundDouble (real n) = of_int (roundTiesToEven (real n * 2 ^ m)) / 2 ^ m"
    using lo hi by (rule roundDouble_fine [rotated 2])
  moreover have "real n * 2 ^ m = real_of_int (int n * 2 ^ m)" by simp
  ultimately have "roundDouble (real n) = real_of_int (int n * 2 ^ m) / 2 ^ m"
    by (simp only: roundTiesToEven_of_int)
  then show ?thesis by simp
qed

lemma roundDouble_numeral [simp]:
  "numeral k < (2 ^ 53 :: nat) \<Longrightarrow> roundDouble (numeral k) = numeral k"
  using roundDouble_nat [of "numeral k"] by simp

section \<open>The clamped store and the chroma key\<close>

lemma uint_toUint8Clamp:
  "uint (toUint8Clamp v) = roundTiesToEven (min (max v 0) 255)"
proof -
  let ?k = "roundTiesToEven (min (max v 0) 255)"
  have r: "0 \<le> ?k \<and> ?k \<le> 255"
    by (rule roundTiesToEven_range) simp_all
  have "uint (word_of_int ?k :: u8) = ?k"
    using r by (simp add: uint_word_of_int take_bit_int_eq_self)
  then show ?thesis
    by (simp add: toUint8Clamp_def)
qed

lemma toUint8Clamp_mono:
  assumes "x \<le> y"
  shows "toUint8Clamp x \<le> toUint8Clamp y"
proof -
  have "min (max x 0) 255 \<le> min (max y 0) 255" using assms by auto
  then have "roundTiesToEven (min (max x 0) 255) \<le> roundTiesToEven (min (max y 0) 255)"
    by (rule roundTiesToEven_mono)
  then show ?thesis
    by (simp add: word_le_def uint_toUint8Clamp)
qed

lemma toUint8Clamp_unsigned [simp]: "toUint8Clamp (unsigned (w::u8)) = w"
proof -
  have "(0::real) \<le> real (unat w)" by (rule of_nat_0_le_iff)
  then have "(0::real) \<le> unsigned w" by simp
  then have "min (max (unsigned w :: real) 0) 255 = unsigned w"
    using unsigned_le_255 [of w] by simp
  then show ?thesis by (simp add: toUint8Clamp_def)
qed

lemma toUint8Clamp_min:
  "toUint8Clamp (min (unsigned (w::u8)) v) = min w (toUint8Clamp v)"
proof (cases "unsigned w \<le> v")
  case True
  then have "w \<le> toUint8Clamp v"
    using toUint8Clamp_mono [of "unsigned w" v] by simp
  then show ?thesis using True by (simp add: min_def)
next
  case False
  then have "toUint8Clamp v \<le> w"
    using toUint8Clamp_mono [of v "unsigned w"] by simp
  then show ?thesis using False by (simp add: min_def)
qed

lemma keyPixel_alpha:
  "alpha (keyPixel bg tolerance p) =
     (if distance bg p < tolerance then 0
      else if distance bg p < fmul tolerance (roundDouble 1.3)
        then min (alpha p) (toUint8Clamp (featherAlpha tolerance (distance bg p)))
      else alpha p)"
  by (simp add: keyPixel_def Let_def toUint8Clamp_min)

lemma keyPixel_rgb:
  "red (keyPixel bg tolerance p) = red p \<and> green (keyPixel bg tolerance p) = green p
   \<and> blue (keyPixel bg tolerance p) = blue p"
  by (simp add: keyPixel_def Let_def)

lemma distance_keyPixel: "distance bg (keyPixel bg' tolerance p) = distance bg p"
  by (simp add: distance_def keyPixel_rgb)

lemma keyPixel_alpha_le: "alpha (keyPixel bg tolerance p) \<le> alpha p"
  by (simp add: keyPixel_alpha)

lemma keyPixel_idem: "keyPixel bg tolerance (keyPixel bg tolerance p) = keyPixel bg tolerance p"
proof (rule pixel.equality)
  show "alpha (keyPixel bg tolerance (keyPixel bg tolerance p)) = alpha (keyPixel bg tolerance p)"
    by (simp add: keyPixel_alpha [of bg tolerance "keyPixel bg tolerance p"] distance_keyPixel)
       (simp add: keyPixel_alpha)
qed (simp_all add: keyPixel_rgb)


lemma roundTiesToEven_minus: "roundTiesToEven (- v) = - roundTiesToEven v"
proof (cases "v = of_int \<lfloor>v\<rfloor>")
  case True
  then have "- v = of_int (- \<lfloor>v\<rfloor>)" by simp
  then have "roundTiesToEven (- v) = - \<lfloor>v\<rfloor>" by (simp only: roundTiesToEven_of_int)
  moreover have "roundTiesToEven v = \<lfloor>v\<rfloor>" using True roundTiesToEven_of_int by metis
  ultimately show ?thesis by simp
next
  case False
  define f where "f = \<lfloor>v\<rfloor>"
  have "real_of_int \<lfloor>v\<rfloor> \<le> v" by simp
  with False have lo: "real_of_int f < v" unfolding f_def by linarith
  have hi: "v < real_of_int f + 1" by (simp add: f_def)
  have fl: "\<lfloor>- v\<rfloor> = - f - 1" using lo hi by (intro floor_unique) simp_all
  consider (below) "v < real_of_int f + 1 / 2" | (above) "real_of_int f + 1 / 2 < v"
    | (tie) "v = real_of_int f + 1 / 2" by linarith
  then show ?thesis
  proof cases
    case below
    then have "roundTiesToEven v = f" by (simp add: roundTiesToEven_def f_def)
    moreover have "roundTiesToEven (- v) = - f" using below by (simp add: roundTiesToEven_def fl)
    ultimately show ?thesis by simp
  next
    case above
    then have "roundTiesToEven v = f + 1" by (simp add: roundTiesToEven_def f_def)
    moreover have "roundTiesToEven (- v) = - f - 1" using above by (simp add: roundTiesToEven_def fl)
    ultimately show ?thesis by simp
  next
    case tie
    then have "roundTiesToEven v = (if even f then f else f + 1)"
      by (simp add: roundTiesToEven_def f_def)
    moreover have "\<not> - v < real_of_int (- f - 1) + 0.5" using tie by simp
    moreover have "\<not> - v > real_of_int (- f - 1) + 0.5" using tie by simp
    ultimately have "roundTiesToEven (- v) = (if even (- f - 1) then - f - 1 else - f - 1 + 1)"
      unfolding roundTiesToEven_def [of "- v"] Let_def fl by (simp only: if_False)
    then have "roundTiesToEven (- v) = (if even f then - f else - f - 1)" by simp
    then show ?thesis
      using \<open>roundTiesToEven v = (if even f then f else f + 1)\<close> by simp
  qed
qed

lemma roundDouble_minus: "roundDouble (- x) = - roundDouble x"
  by (simp add: roundDouble_def ulp_def binade_def roundTiesToEven_minus)


lemma roundDouble_one [simp]: "roundDouble 1 = 1"
  using roundDouble_nat [of 1] by simp


lemma roundDouble_neg_numeral [simp]:
  "numeral k < (2 ^ 53 :: nat) \<Longrightarrow> roundDouble (- numeral k) = - numeral k"
  using roundDouble_minus [of "numeral k"] by simp




lemma roundDouble_thirteen_tenths: "roundDouble (13 / 10) = 5854679515581645 / 2 ^ 52"
  by (subst roundDouble_fine [where n = 52]) (simp_all add: roundTiesToEven_def)


lemmas double_ops = fadd_def fsub_def fmul_def fdiv_def fsqrt_def fpow_def


lemma distance_greenPixel: "distance greenKey greenPixel = 0"
  by (simp add: distance_def double_ops greenKey_def greenPixel_def)


lemma distance_redPixel: "360 \<le> distance greenKey redPixel"
proof -
  have "distance greenKey redPixel = roundDouble (sqrt 130050)"
    by (simp add: distance_def double_ops greenKey_def redPixel_def)
  moreover have "360 \<le> sqrt 130050" by (rule real_le_rsqrt) simp
  then have "roundDouble 360 \<le> roundDouble (sqrt 130050)" by (rule roundDouble_mono [rotated]) simp
  ultimately show ?thesis by simp
qed




lemma band_50_52: "fmul 50 (roundDouble 1.3) = 65"
  unfolding fmul_def roundDouble_thirteen_tenths
  by (subst roundDouble_fine [where n = 46]) (simp_all add: roundTiesToEven_def)

































lemma keyPixel_redPixel: "keyPixel greenKey 50 redPixel = redPixel"
  using distance_redPixel by (simp add: keyPixel_def Let_def band_50_52)


lemma keyPixel_greenPixel: "keyPixel greenKey 50 greenPixel = greenPixel\<lparr>alpha := 0\<rparr>"
  by (simp add: keyPixel_def Let_def distance_greenPixel)









lemma alpha_redLevel [simp]: "alpha (redLevel v) = 255"
  by (simp add: redLevel_def)

lemma alpha_featherPixel [simp]: "alpha featherPixel = 255"
  by (simp add: featherPixel_def)




text \<open>
  C7: keying an image a second time with the same key colour and tolerance gives the image
  the first keying gave; no alpha changes.
\<close>

theorem chromaKey_idempotent:
  "chromaKey (chromaKey img bg tolerance) bg tolerance = chromaKey img bg tolerance"
  by (simp add: chromaKey_def keyPixel_idem)

text \<open>
  C10: the chroma key never increases a pixel's alpha, whatever its distance from the key
  colour, and a fully transparent pixel stays fully transparent.
\<close>

theorem chromaKey_never_increases_alpha:
  assumes "0 < tolerance" and "i < length (data img)"
  shows "alpha (data (chromaKey img bg tolerance) ! i) \<le> alpha (data img ! i)
     \<and> (alpha (data img ! i) = 0 \<longrightarrow> alpha (data (chromaKey img bg tolerance) ! i) = 0)"
proof -
  have "alpha (data (chromaKey img bg tolerance) ! i) \<le> alpha (data img ! i)"
    using assms(2) by (simp add: chromaKey_def keyPixel_alpha_le)
  then show ?thesis by auto
qed

theorem chromaKey_never_increases_alpha_witness:
  "(0::real) < 50 \<and> (1::nat) < length (data twoPixels)
   \<and> alpha (data (chromaKey twoPixels greenKey 50) ! 1) \<le> alpha (data twoPixels ! 1)
   \<and> alpha (data twoPixels ! 1) = 0 \<and> alpha (data (chromaKey twoPixels greenKey 50) ! 1) = 0"
  using chromaKey_never_increases_alpha [of 50 1 twoPixels greenKey]
  by (simp add: twoPixels_def)

section \<open>Erosion shrinks, dilation grows\<close>

text \<open>
  C4: one erosion pass leaves every pixel's alpha less than or equal to what it was, and one
  dilation pass leaves it greater than or equal to what it was.
\<close>

theorem erode_dilate_monotone:
  assumes "wellFormed img" and "i < width img * height img"
  shows "alpha (data (erode img radius) ! i) \<le> alpha (data img ! i)
     \<and> alpha (data img ! i) \<le> alpha (data (dilate img radius) ! i)"
  using assms(2) by (simp add: erode_alpha_le dilate_alpha_ge)

theorem erode_dilate_monotone_witness:
  "wellFormed twoPixels \<and> (0::nat) < width twoPixels * height twoPixels
   \<and> alpha (data (erode twoPixels 1) ! 0) \<le> alpha (data twoPixels ! 0)
   \<and> alpha (data twoPixels ! 0) \<le> alpha (data (dilate twoPixels 1) ! 0)"
proof -
  have w: "wellFormed twoPixels" by (simp add: wellFormed_def twoPixels_def)
  have i: "(0::nat) < width twoPixels * height twoPixels" by (simp add: twoPixels_def)
  show ?thesis using w i erode_dilate_monotone [OF w i, of 1] by simp
qed

section \<open>Neighbours on the grid\<close>

lemma div_mod_row: "r < w \<Longrightarrow> (q * w + r) div w = (q::nat) \<and> (q * w + r) mod w = r"
  by simp

lemma index_lt_iff:
  assumes "0 < (w::nat)"
  shows "i < w * h \<longleftrightarrow> i div w < h"
  using assms by (simp add: div_less_iff_less_mult mult.commute)

lemma left_coords:
  assumes w: "0 < (w::nat)" and "0 < i mod w"
  shows "(i - 1) div w = i div w \<and> (i - 1) mod w = i mod w - 1 \<and> 0 < i"
proof -
  have "i = i div w * w + i mod w" by simp
  then have e: "i - 1 = i div w * w + (i mod w - 1)" using assms(2) by linarith
  have "i mod w - 1 < w" using w by (simp add: less_imp_diff_less)
  then have "(i div w * w + (i mod w - 1)) div w = i div w
      \<and> (i div w * w + (i mod w - 1)) mod w = i mod w - 1"
    by (rule div_mod_row)
  moreover have "0 < i" using assms(2) by (cases i) simp_all
  ultimately show ?thesis by (simp only: e)
qed

lemma right_coords:
  assumes "(i::nat) mod w + 1 < w"
  shows "(i + 1) div w = i div w \<and> (i + 1) mod w = i mod w + 1"
proof -
  have "i = i div w * w + i mod w" by simp
  then have e: "i + 1 = i div w * w + (i mod w + 1)" by linarith
  have "(i div w * w + (i mod w + 1)) div w = i div w
      \<and> (i div w * w + (i mod w + 1)) mod w = i mod w + 1"
    using assms by (rule div_mod_row)
  then show ?thesis by (simp only: e) 
qed

lemma up_coords:
  assumes "0 < (w::nat)" "0 < i div w"
  shows "(i - w) div w = i div w - 1 \<and> (i - w) mod w = i mod w \<and> w \<le> i"
proof -
  have le: "w \<le> i"
  proof (rule ccontr)
    assume "\<not> w \<le> i"
    then have "i div w = 0" by simp
    then show False using assms(2) by simp
  qed
  then have i: "i = (i - w) + w" by simp
  have "i div w = ((i - w) + w) div w" using le by simp
  also have "\<dots> = (i - w) div w + 1" using assms(1) by (simp only: div_add_self2)
  finally have d: "(i - w) div w = i div w - 1" by simp
  have "i mod w = ((i - w) + w) mod w" using le by simp
  also have "\<dots> = (i - w) mod w" by (simp only: mod_add_self2)
  finally show ?thesis using d le by simp
qed

lemma down_coords:
  assumes "0 < (w::nat)"
  shows "(i + w) div w = i div w + 1 \<and> (i + w) mod w = i mod w"
  using assms by simp

lemma pushNeighbors_cases:
  assumes "j \<in> set (pushNeighbors w h i)"
  obtains (left) "0 < i mod w" "j = i - 1"
    | (right) "i mod w + 1 < w" "j = i + 1"
    | (up) "0 < i div w" "j = i - w"
    | (down) "i div w + 1 < h" "j = i + w"
  using assms by (auto simp: pushNeighbors_def Let_def split: if_splits)

lemma pushNeighbors_left: "0 < i mod w \<Longrightarrow> i - 1 \<in> set (pushNeighbors w h i)"
  by (simp add: pushNeighbors_def Let_def)

lemma pushNeighbors_right: "i mod w + 1 < w \<Longrightarrow> i + 1 \<in> set (pushNeighbors w h i)"
  by (auto simp: pushNeighbors_def Let_def)

lemma pushNeighbors_up: "0 < i div w \<Longrightarrow> i - w \<in> set (pushNeighbors w h i)"
  by (simp add: pushNeighbors_def Let_def)

lemma pushNeighbors_down: "i div w + 1 < h \<Longrightarrow> i + w \<in> set (pushNeighbors w h i)"
  by (auto simp: pushNeighbors_def Let_def)

lemma pushNeighbors_sym:
  assumes "i < w * h" and "j \<in> set (pushNeighbors w h i)"
  shows "j < w * h \<and> i \<in> set (pushNeighbors w h j)"
proof -
  have w: "0 < w" using assms(1) by (cases w) simp_all
  have y: "i div w < h" using assms(1) w by (simp add: index_lt_iff)
  have x: "i mod w < w" using w by simp
  from assms(2) show ?thesis
  proof (cases rule: pushNeighbors_cases)
    case left
    have c: "(i - 1) div w = i div w" "(i - 1) mod w = i mod w - 1" "0 < i"
      using left_coords [OF w left(1)] by simp_all
    have "(i - 1) mod w + 1 < w" using c(2) x left(1) by simp
    then have "(i - 1) + 1 \<in> set (pushNeighbors w h (i - 1))" by (rule pushNeighbors_right)
    moreover have "i - 1 < w * h" using assms(1) by simp
    ultimately show ?thesis using left(2) c(3) by simp
  next
    case right
    have c: "(i + 1) div w = i div w" "(i + 1) mod w = i mod w + 1"
      using right_coords [OF right(1)] by simp_all
    have "0 < (i + 1) mod w" using c(2) by simp
    then have "(i + 1) - 1 \<in> set (pushNeighbors w h (i + 1))" by (rule pushNeighbors_left)
    moreover have "i + 1 < w * h" using y c(1) w by (simp only: index_lt_iff)
    ultimately show ?thesis using right(2) by simp
  next
    case up
    have c: "(i - w) div w = i div w - 1" "(i - w) mod w = i mod w" "w \<le> i"
      using up_coords [OF w up(1)] by simp_all
    have "(i - w) div w + 1 < h" using c(1) y up(1) by simp
    then have "(i - w) + w \<in> set (pushNeighbors w h (i - w))" by (rule pushNeighbors_down)
    moreover have "i - w < w * h" using assms(1) by simp
    ultimately show ?thesis using up(2) c(3) by simp
  next
    case down
    have c: "(i + w) div w = i div w + 1" "(i + w) mod w = i mod w"
      using down_coords [OF w, of i] by simp_all
    have "0 < (i + w) div w" using c(1) by simp
    then have "(i + w) - w \<in> set (pushNeighbors w h (i + w))" by (rule pushNeighbors_up)
    moreover have "i + w < w * h" using down(1) c(1) w by (simp only: index_lt_iff)
    ultimately show ?thesis using down(2) by simp
  qed
qed

lemma region_opaque: "j \<in> connectedRegion w h dat s \<Longrightarrow> opaqueAt dat j"
  by (induction rule: connectedRegion.induct) simp_all

lemma region_trans:
  assumes "j \<in> connectedRegion w h dat i" and "i \<in> connectedRegion w h dat s"
  shows "j \<in> connectedRegion w h dat s"
  using assms by (induction rule: connectedRegion.induct) (auto intro: connectedRegion.step)

lemma region_sym:
  assumes "length dat = w * h" and "i \<in> connectedRegion w h dat s"
  shows "s \<in> connectedRegion w h dat i"
  using assms(2)
proof (induction rule: connectedRegion.induct)
  case seed
  then show ?case by (rule connectedRegion.seed)
next
  case (step i j)
  have "i < w * h" using region_opaque [OF step.hyps(1)] assms(1) by (simp add: opaqueAt_def)
  then have "i \<in> set (pushNeighbors w h j)" using step.hyps(2) pushNeighbors_sym by blast
  then have "i \<in> connectedRegion w h dat j"
    using connectedRegion.seed [OF step.hyps(3)] region_opaque [OF step.hyps(1)] by (blast intro: connectedRegion.step)
  with step.IH show ?case by (rule region_trans)
qed

lemma region_eq:
  assumes "length dat = w * h" and "i \<in> connectedRegion w h dat s"
  shows "connectedRegion w h dat i = connectedRegion w h dat s"
  using assms region_sym region_trans by blast

lemma region_bounded: "connectedRegion w h dat s \<subseteq> {..<length dat}"
  using region_opaque by (auto simp: opaqueAt_def)

lemma finite_region: "finite (connectedRegion w h dat s)"
  using region_bounded finite_lessThan by (rule finite_subset)

lemma length_clearRegion: "length (clearRegion dat rs) = length dat"
  unfolding clearRegion_def by (induction rs arbitrary: dat) simp_all

lemma nth_clearRegion:
  assumes "i < length dat"
  shows "clearRegion dat rs ! i = (if i \<in> set rs then (dat ! i)\<lparr>alpha := 0\<rparr> else dat ! i)"
  using assms unfolding clearRegion_def
proof (induction rs arbitrary: dat)
  case Nil
  then show ?case by simp
next
  case (Cons r rs)
  let ?d = "dat[r := (dat ! r)\<lparr>alpha := 0\<rparr>]"
  have "i < length ?d" using Cons.prems by simp
  then have "fold (\<lambda>pixelIdx d. d[pixelIdx := (d ! pixelIdx)\<lparr>alpha := 0\<rparr>]) rs ?d ! i
      = (if i \<in> set rs then (?d ! i)\<lparr>alpha := 0\<rparr> else ?d ! i)"
    by (rule Cons.IH)
  then show ?case using Cons.prems by (cases "i = r") simp_all
qed

section \<open>The flood fill loop\<close>

lemma transparentAt_iff:
  "idx < length dat \<Longrightarrow> transparentAt dat idx \<longleftrightarrow> \<not> opaqueAt dat idx"
  by (simp add: transparentAt_def opaqueAt_def word_greater_zero_iff)

lemma opaqueAt_not_transparent: "opaqueAt dat idx \<Longrightarrow> \<not> transparentAt dat idx"
  by (simp add: transparentAt_def opaqueAt_def word_greater_zero_iff)

lemma floodLoop_visited_mono:
  "visited \<subseteq> fst (floodLoop w h dat stack visited rs sz)"
  by (induction w h dat stack visited rs sz rule: floodLoop.induct) auto

lemma floodLoop_stack_visited:
  "set stack \<subseteq> fst (floodLoop w h dat stack visited rs sz)"
proof (induction w h dat stack visited rs sz rule: floodLoop.induct)
  case (1 w h dat visited rs sz)
  then show ?case by simp
next
  case (2 w h dat idx stack visited rs sz)
  show ?case
  proof (cases "idx \<in> visited")
    case True
    then show ?thesis
      using 2(1) floodLoop_visited_mono [of visited w h dat stack rs sz] by auto
  next
    case False
    show ?thesis
    proof (cases "transparentAt dat idx")
      case True
      then show ?thesis
        using False 2(2) floodLoop_visited_mono [of "insert idx visited" w h dat stack rs sz]
        by auto
    next
      case t: False
      then show ?thesis
        using False 2(3)
          floodLoop_visited_mono [of "insert idx visited" w h dat
            "rev (pushNeighbors w h idx) @ stack" "rs @ [idx]" "sz + 1"]
        by auto
    qed
  qed
qed

lemma floodLoop_size:
  "sz = length rs \<Longrightarrow>
   snd (snd (floodLoop w h dat stack visited rs sz))
     = length (fst (snd (floodLoop w h dat stack visited rs sz)))"
  by (induction w h dat stack visited rs sz rule: floodLoop.induct) auto

lemma floodLoop_distinct:
  "distinct rs \<Longrightarrow> set rs \<subseteq> visited \<Longrightarrow>
   distinct (fst (snd (floodLoop w h dat stack visited rs sz)))"
  by (induction w h dat stack visited rs sz rule: floodLoop.induct) auto

lemma floodLoop_region:
  assumes "length dat = w * h" and "set stack \<subseteq> {..<w * h}"
  shows "set (fst (snd (floodLoop w h dat stack visited rs sz)))
     = set rs \<union> {v \<in> fst (floodLoop w h dat stack visited rs sz) - visited. opaqueAt dat v}"
  using assms
proof (induction w h dat stack visited rs sz rule: floodLoop.induct)
  case (1 w h dat visited rs sz)
  then show ?case by simp
next
  case (2 w h dat idx stack visited rs sz)
  have idx: "idx < length dat" using 2(4,5) by simp
  have st: "set stack \<subseteq> {..<w * h}" using 2(5) by simp
  show ?case
  proof (cases "idx \<in> visited")
    case True
    then show ?thesis using 2(1) [OF True 2(4) st] by simp
  next
    case False
    show ?thesis
    proof (cases "transparentAt dat idx")
      case True
      then have "\<not> opaqueAt dat idx" using idx by (simp add: transparentAt_iff)
      then show ?thesis using False True 2(2) [OF False True 2(4) st] by auto
    next
      case t: False
      then have o: "opaqueAt dat idx" using idx by (simp add: transparentAt_iff)
      have "set (pushNeighbors w h idx) \<subseteq> {..<w * h}"
        using pushNeighbors_sym [of idx w h] idx 2(4) by auto
      then have st': "set (rev (pushNeighbors w h idx) @ stack) \<subseteq> {..<w * h}"
        using st by simp
      have "idx \<in> fst (floodLoop w h dat (rev (pushNeighbors w h idx) @ stack)
          (insert idx visited) (rs @ [idx]) (sz + 1))"
        using floodLoop_visited_mono [of "insert idx visited" w h dat
            "rev (pushNeighbors w h idx) @ stack" "rs @ [idx]" "sz + 1"] by auto
      then show ?thesis using False t o 2(3) [OF False t 2(4) st'] by auto
    qed
  qed
qed

lemma floodLoop_closed:
  "\<forall>v \<in> fst (floodLoop w h dat stack visited rs sz) - visited.
     opaqueAt dat v \<longrightarrow> set (pushNeighbors w h v) \<subseteq> fst (floodLoop w h dat stack visited rs sz)"
proof (induction w h dat stack visited rs sz rule: floodLoop.induct)
  case (1 w h dat visited rs sz)
  then show ?case by simp
next
  case (2 w h dat idx stack visited rs sz)
  show ?case
  proof (cases "idx \<in> visited")
    case True
    then show ?thesis using 2(1) by simp
  next
    case False
    show ?thesis
    proof (cases "transparentAt dat idx")
      case True
      then have "\<not> opaqueAt dat idx" using opaqueAt_not_transparent by blast
      then show ?thesis using False True 2(2) by auto
    next
      case t: False
      have "set (pushNeighbors w h idx) \<subseteq> fst (floodLoop w h dat (rev (pushNeighbors w h idx) @ stack)
          (insert idx visited) (rs @ [idx]) (sz + 1))"
        using floodLoop_stack_visited [of "rev (pushNeighbors w h idx) @ stack" w h dat
            "insert idx visited" "rs @ [idx]" "sz + 1"] by simp
      then show ?thesis using False t 2(3) by auto
    qed
  qed
qed

lemma floodLoop_sound:
  assumes "length dat = w * h" and "set stack \<subseteq> {..<w * h}"
  shows "set (fst (snd (floodLoop w h dat stack visited rs sz)))
     \<subseteq> set rs \<union> (\<Union>s \<in> set stack. connectedRegion w h dat s)"
  using assms
proof (induction w h dat stack visited rs sz rule: floodLoop.induct)
  case (1 w h dat visited rs sz)
  then show ?case by simp
next
  case (2 w h dat idx stack visited rs sz)
  have idx: "idx < length dat" using 2(4,5) by simp
  have st: "set stack \<subseteq> {..<w * h}" using 2(5) by simp
  show ?case
  proof (cases "idx \<in> visited")
    case True
    then show ?thesis using 2(1) [OF True 2(4) st] by auto
  next
    case False
    show ?thesis
    proof (cases "transparentAt dat idx")
      case True
      then show ?thesis using False 2(2) [OF False True 2(4) st] by auto
    next
      case t: False
      then have o: "opaqueAt dat idx" using idx by (simp add: transparentAt_iff)
      have "set (pushNeighbors w h idx) \<subseteq> {..<w * h}"
        using pushNeighbors_sym [of idx w h] idx 2(4) by auto
      then have st': "set (rev (pushNeighbors w h idx) @ stack) \<subseteq> {..<w * h}"
        using st by simp
      have self: "idx \<in> connectedRegion w h dat idx" using o by (rule connectedRegion.seed)
      have nb: "connectedRegion w h dat p \<subseteq> connectedRegion w h dat idx"
        if "p \<in> set (pushNeighbors w h idx)" for p
      proof
        fix j assume j: "j \<in> connectedRegion w h dat p"
        have "opaqueAt dat p" using j by (induction rule: connectedRegion.induct) simp_all
        then have "p \<in> connectedRegion w h dat idx"
          using self that by (blast intro: connectedRegion.step)
        with j show "j \<in> connectedRegion w h dat idx" by (rule region_trans)
      qed
      have "set (fst (snd (floodLoop w h dat (rev (pushNeighbors w h idx) @ stack)
              (insert idx visited) (rs @ [idx]) (sz + 1))))
          \<subseteq> set (rs @ [idx]) \<union> (\<Union>s \<in> set (rev (pushNeighbors w h idx) @ stack).
              connectedRegion w h dat s)"
        by (rule 2(3) [OF False t 2(4) st'])
      also have "\<dots> \<subseteq> set rs \<union> (\<Union>s \<in> set (idx # stack). connectedRegion w h dat s)"
        using self nb by auto
      finally show ?thesis using False t by simp
    qed
  qed
qed

lemma floodLoop_cong:
  assumes "\<forall>i. i \<notin> visited \<longrightarrow> transparentAt dat i = transparentAt dat' i"
  shows "floodLoop w h dat stack visited rs sz = floodLoop w h dat' stack visited rs sz"
  using assms
proof (induction w h dat stack visited rs sz rule: floodLoop.induct)
  case (1 w h dat visited rs sz)
  then show ?case by simp
next
  case (2 w h dat idx stack visited rs sz)
  have ins: "\<forall>i. i \<notin> insert idx visited \<longrightarrow> transparentAt dat i = transparentAt dat' i"
    using 2(4) by simp
  show ?case
  proof (cases "idx \<in> visited")
    case True
    then show ?thesis using 2(1) [OF True 2(4)] by simp
  next
    case False
    then have same: "transparentAt dat idx = transparentAt dat' idx" using 2(4) by simp
    show ?thesis
    proof (cases "transparentAt dat idx")
      case True
      then show ?thesis using False same 2(2) [OF False True ins] by simp
    next
      case t: False
      then show ?thesis using False same 2(3) [OF False t ins] by simp
    qed
  qed
qed

section \<open>The seed loop\<close>

lemma floodLoop_fill:
  assumes len: "length dat = w * h" and s: "s < w * h" "s \<notin> V" "opaqueAt dat s"
    and cl: "closedUnder w h dat V"
  defines "r \<equiv> floodLoop w h dat [s] V [] 0"
  shows "set (fst (snd r)) = connectedRegion w h dat s"
    and "snd (snd r) = card (connectedRegion w h dat s)"
    and "V \<subseteq> fst r" and "s \<in> fst r"
    and "closedUnder w h dat (fst r)"
    and "connectedRegion w h dat s \<subseteq> fst r - V"
    and "\<forall>v \<in> fst r - V. v \<notin> connectedRegion w h dat s \<longrightarrow> \<not> opaqueAt dat v"
proof -
  have st: "set [s] \<subseteq> {..<w * h}" using s(1) by simp
  have R: "set (fst (snd r)) = {v \<in> fst r - V. opaqueAt dat v}"
    unfolding r_def using floodLoop_region [OF len st, of V "[]" 0] by simp
  have mono: "V \<subseteq> fst r" unfolding r_def by (rule floodLoop_visited_mono)
  have seed: "s \<in> fst r"
    unfolding r_def using floodLoop_stack_visited [of "[s]" w h dat V "[]" 0] by simp
  have closed: "\<forall>v \<in> fst r - V. opaqueAt dat v \<longrightarrow> set (pushNeighbors w h v) \<subseteq> fst r"
    unfolding r_def by (rule floodLoop_closed)
  have sub: "set (fst (snd r)) \<subseteq> connectedRegion w h dat s"
    unfolding r_def using floodLoop_sound [OF len st, of V "[]" 0] by simp
  have sup: "j \<in> set (fst (snd r))" if "j \<in> connectedRegion w h dat s" for j
    using that
  proof (induction rule: connectedRegion.induct)
    case seed
    then show ?case using R \<open>s \<in> fst r\<close> s(2) by simp
  next
    case (step i j)
    have i: "i \<in> fst r - V" "opaqueAt dat i" using step.IH R by simp_all
    have jr: "j \<in> fst r" using closed i step.hyps(2) by blast
    have "j \<notin> V"
    proof
      assume jV: "j \<in> V"
      have "i < w * h" using i(2) len by (simp add: opaqueAt_def)
      then have "i \<in> set (pushNeighbors w h j)" using step.hyps(2) pushNeighbors_sym by blast
      then have "i \<in> V" using cl jV step.hyps(3) by (auto simp: closedUnder_def)
      then show False using i(1) by simp
    qed
    then show ?case using R jr step.hyps(3) by simp
  qed
  show eq: "set (fst (snd r)) = connectedRegion w h dat s" using sub sup by blast
  have "distinct (fst (snd r))" unfolding r_def by (rule floodLoop_distinct) simp_all
  then have "card (set (fst (snd r))) = length (fst (snd r))" by (rule distinct_card)
  moreover have "snd (snd r) = length (fst (snd r))"
    unfolding r_def by (rule floodLoop_size) simp
  ultimately show "snd (snd r) = card (connectedRegion w h dat s)" using eq by simp
  show "V \<subseteq> fst r" by (rule mono)
  show "s \<in> fst r" by (rule seed)
  show "closedUnder w h dat (fst r)"
    unfolding closedUnder_def
  proof (intro ballI impI)
    fix v assume v: "v \<in> fst r" "opaqueAt dat v"
    show "set (pushNeighbors w h v) \<subseteq> fst r"
    proof (cases "v \<in> V")
      case True
      then have "set (pushNeighbors w h v) \<subseteq> V" using cl v(2) by (simp add: closedUnder_def)
      then show ?thesis using mono by blast
    next
      case False
      then show ?thesis using closed v by blast
    qed
  qed
  show "connectedRegion w h dat s \<subseteq> fst r - V" using eq R by blast
  show "\<forall>v \<in> fst r - V. v \<notin> connectedRegion w h dat s \<longrightarrow> \<not> opaqueAt dat v"
    using eq R by blast
qed

lemma scanStep_inv:
  assumes len: "length dat0 = w * h" and i: "i < w * h"
    and inv: "scanInv minRegionSize w h dat0 s"
  shows "scanInv minRegionSize w h dat0 (scanStep minRegionSize w h i s)
     \<and> snd s \<subseteq> snd (scanStep minRegionSize w h i s)
     \<and> (i \<in> snd (scanStep minRegionSize w h i s) \<or> \<not> opaqueAt dat0 i)"
proof -
  obtain D V where s: "s = (D, V)" by (cases s)
  have lenD: "length D = length dat0" using inv by (simp add: scanInv_def s)
  have cl: "closedUnder w h dat0 V" using inv by (simp add: scanInv_def s)
  have pix: "D ! j = (if j \<in> V then filteredPixel minRegionSize w h dat0 j else dat0 ! j)"
    if "j < length dat0" for j
    using inv that by (simp add: scanInv_def s)
  show ?thesis
  proof (cases "i \<notin> V \<and> alpha (D ! i) > 0")
    case False
    then have same: "scanStep minRegionSize w h i s = s" by (auto simp: scanStep_def s)
    have "i \<in> V \<or> \<not> opaqueAt dat0 i"
      using False pix [of i] i len by (auto simp: opaqueAt_def)
    then show ?thesis using inv unfolding same by (auto simp: s)
  next
    case True
    then have iV: "i \<notin> V" by simp
    have "D ! i = dat0 ! i" using pix [of i] i len iV by simp
    then have op: "opaqueAt dat0 i" using True i len by (simp add: opaqueAt_def)
    have agree: "\<forall>j. j \<notin> V \<longrightarrow> transparentAt D j = transparentAt dat0 j"
      using pix lenD by (auto simp: transparentAt_def)
    define r where "r = floodLoop w h dat0 [i] V [] 0"
    have r: "floodLoop w h D [i] V [] 0 = r"
      unfolding r_def using agree by (rule floodLoop_cong)
    note fill = floodLoop_fill [OF len i iV op cl, folded r_def]
    define D' where "D' = (if snd (snd r) < minRegionSize then clearRegion D (fst (snd r)) else D)"
    have step: "scanStep minRegionSize w h i (D, V) = (D', fst r)"
      using True r by (simp add: scanStep_def floodFill_def D'_def split: prod.splits)
    have lenD': "length D' = length dat0" by (simp add: D'_def lenD length_clearRegion)
    have pix': "D' ! j = (if j \<in> fst r then filteredPixel minRegionSize w h dat0 j else dat0 ! j)"
      if j: "j < length dat0" for j
    proof (cases "j \<in> connectedRegion w h dat0 i")
      case inR: True
      then have jn: "j \<in> fst r" "j \<notin> V" using fill(6) by auto
      have e: "connectedRegion w h dat0 j = connectedRegion w h dat0 i"
        using len inR by (rule region_eq)
      have oj: "opaqueAt dat0 j" using inR by (rule region_opaque)
      have "D ! j = dat0 ! j" using pix [OF j] jn(2) by simp
      then have "D' ! j = (if card (connectedRegion w h dat0 i) < minRegionSize
          then (dat0 ! j)\<lparr>alpha := 0\<rparr> else dat0 ! j)"
        using j lenD inR fill(1) fill(2) by (simp add: D'_def nth_clearRegion)
      then show ?thesis using jn(1) oj e by (simp add: filteredPixel_def)
    next
      case notR: False
      have same: "D' ! j = D ! j"
        using j lenD notR fill(1) by (simp add: D'_def nth_clearRegion)
      show ?thesis
      proof (cases "j \<in> V")
        case True
        then have "j \<in> fst r" using fill(3) by blast
        then show ?thesis using same pix [OF j] True by simp
      next
        case jV: False
        show ?thesis
        proof (cases "j \<in> fst r")
          case True
          then have "\<not> opaqueAt dat0 j" using fill(7) jV notR by blast
          then show ?thesis using same pix [OF j] jV True by (simp add: filteredPixel_def)
        next
          case False
          then show ?thesis using same pix [OF j] jV by simp
        qed
      qed
    qed
    have "scanInv minRegionSize w h dat0 (D', fst r)"
      using lenD' fill(5) pix' by (simp add: scanInv_def)
    then show ?thesis using fill(3) fill(4) by (simp add: s step)
  qed
qed

lemma fold_scanStep_inv:
  assumes len: "length dat0 = w * h" and ord: "set order \<subseteq> {..<w * h}"
    and inv: "scanInv minRegionSize w h dat0 s"
  shows "scanInv minRegionSize w h dat0 (fold (scanStep minRegionSize w h) order s)
     \<and> snd s \<subseteq> snd (fold (scanStep minRegionSize w h) order s)
     \<and> (\<forall>i \<in> set order. i \<in> snd (fold (scanStep minRegionSize w h) order s) \<or> \<not> opaqueAt dat0 i)"
  using ord inv
proof (induction order arbitrary: s)
  case Nil
  then show ?case by simp
next
  case (Cons i order)
  let ?s = "scanStep minRegionSize w h i s"
  have i: "i < w * h" using Cons.prems(1) by simp
  have one: "scanInv minRegionSize w h dat0 ?s" "snd s \<subseteq> snd ?s" "i \<in> snd ?s \<or> \<not> opaqueAt dat0 i"
    using scanStep_inv [OF len i Cons.prems(2)] by simp_all
  have rest: "scanInv minRegionSize w h dat0 (fold (scanStep minRegionSize w h) order ?s)"
    "snd ?s \<subseteq> snd (fold (scanStep minRegionSize w h) order ?s)"
    "\<forall>i \<in> set order. i \<in> snd (fold (scanStep minRegionSize w h) order ?s) \<or> \<not> opaqueAt dat0 i"
    using Cons.IH [OF _ one(1)] Cons.prems(1) by simp_all
  show ?case using one rest by auto
qed

lemma removeSmallRegions_nth:
  assumes wf: "wellFormed img" and ord: "set order = {..<width img * height img}"
    and i: "i < width img * height img"
  shows "data (removeSmallRegions minRegionSize order img) ! i
     = filteredPixel minRegionSize (width img) (height img) (data img) i"
proof -
  let ?w = "width img" and ?h = "height img"
  have len: "length (data img) = ?w * ?h" using wf by (simp add: wellFormed_def)
  have inv0: "scanInv minRegionSize ?w ?h (data img) (data img, {})"
    by (simp add: scanInv_def closedUnder_def)
  have ord': "set order \<subseteq> {..<?w * ?h}" using ord by simp
  let ?s = "fold (scanStep minRegionSize ?w ?h) order (data img, {})"
  have fin: "scanInv minRegionSize ?w ?h (data img) ?s"
    "\<forall>i \<in> set order. i \<in> snd ?s \<or> \<not> opaqueAt (data img) i"
    using fold_scanStep_inv [OF len ord' inv0] by simp_all
  have "i \<in> set order" using ord i by simp
  then have "i \<in> snd ?s \<or> \<not> opaqueAt (data img) i" using fin(2) by blast
  moreover have "fst ?s ! i = (if i \<in> snd ?s
      then filteredPixel minRegionSize ?w ?h (data img) i else data img ! i)"
    using fin(1) i len by (simp add: scanInv_def)
  ultimately have "fst ?s ! i = filteredPixel minRegionSize ?w ?h (data img) i"
    by (auto simp: filteredPixel_def)
  then show ?thesis by (simp add: removeSmallRegions_def)
qed

lemma removeSmallRegions_shape:
  assumes wf: "wellFormed img" and ord: "set order \<subseteq> {..<width img * height img}"
  shows "width (removeSmallRegions minRegionSize order img) = width img
     \<and> height (removeSmallRegions minRegionSize order img) = height img
     \<and> length (data (removeSmallRegions minRegionSize order img)) = length (data img)"
proof -
  let ?w = "width img" and ?h = "height img"
  have len: "length (data img) = ?w * ?h" using wf by (simp add: wellFormed_def)
  have inv0: "scanInv minRegionSize ?w ?h (data img) (data img, {})"
    by (simp add: scanInv_def closedUnder_def)
  have "scanInv minRegionSize ?w ?h (data img)
      (fold (scanStep minRegionSize ?w ?h) order (data img, {}))"
    using fold_scanStep_inv [OF len ord inv0] by simp
  then show ?thesis by (simp add: removeSmallRegions_def scanInv_def)
qed

section \<open>What the region filter keeps\<close>

lemma isolated_region:
  assumes "opaqueAt dat s" and "\<forall>j \<in> set (pushNeighbors w h s). \<not> opaqueAt dat j"
  shows "connectedRegion w h dat s = {s}"
proof
  show "connectedRegion w h dat s \<subseteq> {s}"
  proof
    fix j assume "j \<in> connectedRegion w h dat s"
    then show "j \<in> {s}"
      using assms(2) by (induction rule: connectedRegion.induct) auto
  qed
  show "{s} \<subseteq> connectedRegion w h dat s"
    using assms(1) by (simp add: connectedRegion.seed)
qed

lemma regionFilter_nth:
  assumes "wellFormed img" and "i < width img * height img"
  shows "data (regionFilter minRegionSize img) ! i
     = filteredPixel minRegionSize (width img) (height img) (data img) i"
  unfolding regionFilter_def
  by (rule removeSmallRegions_nth [OF assms(1) _ assms(2)]) (simp add: lessThan_atLeast0)

lemma regionFilter_shape:
  assumes "wellFormed img"
  shows "width (regionFilter minRegionSize img) = width img
     \<and> height (regionFilter minRegionSize img) = height img
     \<and> length (data (regionFilter minRegionSize img)) = length (data img)"
  unfolding regionFilter_def
  by (rule removeSmallRegions_shape [OF assms]) (simp add: lessThan_atLeast0)

lemma alpha_filteredPixel:
  "alpha (filteredPixel minRegionSize w h dat i) =
     (if opaqueAt dat i \<and> card (connectedRegion w h dat i) < minRegionSize then 0
      else alpha (dat ! i))"
  by (simp add: filteredPixel_def)

lemma rgbOf_filteredPixel: "rgbOf (filteredPixel minRegionSize w h dat i) = rgbOf (dat ! i)"
  by (simp add: filteredPixel_def rgbOf_def)

lemma regionFilter_region_alpha:
  assumes wf: "wellFormed img" and j: "j \<in> connectedRegion (width img) (height img) (data img) s"
  shows "alpha (data (regionFilter minRegionSize img) ! j) =
     (if card (connectedRegion (width img) (height img) (data img) s) < minRegionSize then 0
      else alpha (data img ! j))"
proof -
  have len: "length (data img) = width img * height img" using wf by (simp add: wellFormed_def)
  have o: "opaqueAt (data img) j" using j by (rule region_opaque)
  then have jn: "j < width img * height img" using len by (simp add: opaqueAt_def)
  have e: "connectedRegion (width img) (height img) (data img) j
      = connectedRegion (width img) (height img) (data img) s"
    using len j by (rule region_eq)
  show ?thesis
    using o e by (simp add: regionFilter_nth [OF wf jn] alpha_filteredPixel)
qed

text \<open>
  C5: in the region filter, a region of opaque pixels joined by 4-neighbour steps keeps its
  alpha values when it has exactly \<open>minRegionSize\<close> pixels, has every pixel set to alpha 0
  when it has \<open>minRegionSize - 1\<close> pixels, and a single opaque pixel whose 4-neighbours
  are all transparent is removed whenever \<open>minRegionSize > 1\<close>.
\<close>

theorem regionFilter_threshold:
  assumes "wellFormed img" and "s < width img * height img" and "opaqueAt (data img) s"
  shows "(card (connectedRegion (width img) (height img) (data img) s) = minRegionSize \<longrightarrow>
        (\<forall>j \<in> connectedRegion (width img) (height img) (data img) s.
           alpha (data (regionFilter minRegionSize img) ! j) = alpha (data img ! j)))
     \<and> (card (connectedRegion (width img) (height img) (data img) s) + 1 = minRegionSize \<longrightarrow>
        (\<forall>j \<in> connectedRegion (width img) (height img) (data img) s.
           alpha (data (regionFilter minRegionSize img) ! j) = 0))
     \<and> ((\<forall>j \<in> set (pushNeighbors (width img) (height img) s). \<not> opaqueAt (data img) j)
          \<and> 1 < minRegionSize \<longrightarrow>
        alpha (data (regionFilter minRegionSize img) ! s) = 0)"
proof (intro conjI impI ballI)
  fix j
  assume "card (connectedRegion (width img) (height img) (data img) s) = minRegionSize"
    and "j \<in> connectedRegion (width img) (height img) (data img) s"
  then show "alpha (data (regionFilter minRegionSize img) ! j) = alpha (data img ! j)"
    using regionFilter_region_alpha [OF assms(1), of j s minRegionSize] by simp
next
  fix j
  assume "card (connectedRegion (width img) (height img) (data img) s) + 1 = minRegionSize"
    and "j \<in> connectedRegion (width img) (height img) (data img) s"
  then show "alpha (data (regionFilter minRegionSize img) ! j) = 0"
    using regionFilter_region_alpha [OF assms(1), of j s minRegionSize] by auto
next
  assume a: "(\<forall>j \<in> set (pushNeighbors (width img) (height img) s). \<not> opaqueAt (data img) j)
      \<and> 1 < minRegionSize"
  then have "connectedRegion (width img) (height img) (data img) s = {s}"
    using assms(3) by (simp add: isolated_region)
  then show "alpha (data (regionFilter minRegionSize img) ! s) = 0"
    using a regionFilter_region_alpha [OF assms(1), of s s minRegionSize] by simp
qed

lemma region_threePixels: "connectedRegion 3 1 (data threePixels) 0 = {0, 1}"
proof
  have o: "opaqueAt (data threePixels) 0" "opaqueAt (data threePixels) 1"
    "\<not> opaqueAt (data threePixels) 2"
    by (simp_all add: opaqueAt_def threePixels_def redPixel_def greenPixel_def)
  have p: "pushNeighbors 3 1 0 = [1]" "pushNeighbors 3 1 1 = [0, 2]"
    by (simp_all add: pushNeighbors_def)
  show "connectedRegion 3 1 (data threePixels) 0 \<subseteq> {0, 1}"
  proof
    fix j assume "j \<in> connectedRegion 3 1 (data threePixels) 0"
    then show "j \<in> {0, 1}"
      using o(3) p by (induction rule: connectedRegion.induct) auto
  qed
  have "0 \<in> connectedRegion 3 1 (data threePixels) 0" using o(1) by (rule connectedRegion.seed)
  moreover from this have "1 \<in> connectedRegion 3 1 (data threePixels) 0"
    using o(2) p(1) by (auto intro: connectedRegion.step)
  ultimately show "{0, 1} \<subseteq> connectedRegion 3 1 (data threePixels) 0" by simp
qed

lemma twoPixels_facts:
  "wellFormed twoPixels" "width twoPixels = 2" "height twoPixels = 1"
  "opaqueAt (data twoPixels) 0" "\<not> opaqueAt (data twoPixels) 1" "pushNeighbors 2 1 0 = [1]"
  by (simp_all add: wellFormed_def twoPixels_def opaqueAt_def redPixel_def greenPixel_def
      pushNeighbors_def)

lemma threePixels_facts:
  "wellFormed threePixels" "width threePixels = 3" "height threePixels = 1"
  "opaqueAt (data threePixels) 0"
  by (simp_all add: wellFormed_def threePixels_def opaqueAt_def redPixel_def)

theorem regionFilter_threshold_witness:
  "wellFormed threePixels \<and> opaqueAt (data threePixels) 0
   \<and> card (connectedRegion (width threePixels) (height threePixels) (data threePixels) 0) = 2
   \<and> alpha (data (regionFilter 2 threePixels) ! 1) = 255
   \<and> alpha (data (regionFilter 3 threePixels) ! 1) = 0
   \<and> wellFormed twoPixels \<and> opaqueAt (data twoPixels) 0
   \<and> pushNeighbors (width twoPixels) (height twoPixels) 0 = [1]
   \<and> \<not> opaqueAt (data twoPixels) 1
   \<and> alpha (data (regionFilter 2 twoPixels) ! 0) = 0"
proof -
  have c: "card (connectedRegion (width threePixels) (height threePixels) (data threePixels) 0) = 2"
    by (simp only: threePixels_facts region_threePixels) simp
  have in1: "1 \<in> connectedRegion (width threePixels) (height threePixels) (data threePixels) 0"
    by (simp only: threePixels_facts region_threePixels) simp
  have s3: "(0::nat) < width threePixels * height threePixels" by (simp add: threePixels_facts)
  have a1: "alpha (data threePixels ! 1) = 255" by (simp add: threePixels_def redPixel_def)
  have keep: "alpha (data (regionFilter 2 threePixels) ! 1) = 255"
    using regionFilter_threshold [OF threePixels_facts(1) s3 threePixels_facts(4), of 2] c in1 a1
    by simp
  have drop: "alpha (data (regionFilter 3 threePixels) ! 1) = 0"
    using regionFilter_threshold [OF threePixels_facts(1) s3 threePixels_facts(4), of 3] c in1
    by simp
  have s2: "(0::nat) < width twoPixels * height twoPixels" by (simp add: twoPixels_facts)
  have iso: "\<forall>j \<in> set (pushNeighbors (width twoPixels) (height twoPixels) 0).
      \<not> opaqueAt (data twoPixels) j"
    using twoPixels_facts(5,6) by (simp add: twoPixels_facts(2,3))
  have speck: "alpha (data (regionFilter 2 twoPixels) ! 0) = 0"
    using regionFilter_threshold [OF twoPixels_facts(1) s2 twoPixels_facts(4), of 2] iso by simp
  show ?thesis
    using c keep drop speck threePixels_facts(1,4) twoPixels_facts by simp
qed

text \<open>
  C6: the region filter gives the same image for any two orders in which the seed loop
  scans all the pixels, so the same set of pixels ends with alpha 0.
\<close>

theorem regionFilter_order_independent:
  assumes "wellFormed img"
    and "set order1 = {..<width img * height img}"
    and "set order2 = {..<width img * height img}"
  shows "removeSmallRegions minRegionSize order1 img = removeSmallRegions minRegionSize order2 img
     \<and> {j. j < width img * height img
            \<and> alpha (data (removeSmallRegions minRegionSize order1 img) ! j) = 0}
       = {j. j < width img * height img
            \<and> alpha (data (removeSmallRegions minRegionSize order2 img) ! j) = 0}"
proof -
  have len: "length (data img) = width img * height img"
    using assms(1) by (simp add: wellFormed_def)
  have l1: "length (data (removeSmallRegions minRegionSize order1 img)) = width img * height img"
    using removeSmallRegions_shape [OF assms(1), of order1 minRegionSize] assms(2) len by simp
  have l2: "length (data (removeSmallRegions minRegionSize order2 img)) = width img * height img"
    using removeSmallRegions_shape [OF assms(1), of order2 minRegionSize] assms(3) len by simp
  have "data (removeSmallRegions minRegionSize order1 img)
      = data (removeSmallRegions minRegionSize order2 img)"
  proof (rule nth_equalityI)
    show "length (data (removeSmallRegions minRegionSize order1 img))
        = length (data (removeSmallRegions minRegionSize order2 img))"
      using l1 l2 by simp
  next
    fix i assume "i < length (data (removeSmallRegions minRegionSize order1 img))"
    then have i: "i < width img * height img" using l1 by simp
    show "data (removeSmallRegions minRegionSize order1 img) ! i
        = data (removeSmallRegions minRegionSize order2 img) ! i"
      by (simp add: removeSmallRegions_nth [OF assms(1) assms(2) i]
          removeSmallRegions_nth [OF assms(1) assms(3) i])
  qed
  then have "removeSmallRegions minRegionSize order1 img
      = removeSmallRegions minRegionSize order2 img"
    by (simp add: removeSmallRegions_def)
  then show ?thesis by simp
qed

theorem regionFilter_order_independent_witness:
  "wellFormed threePixels
   \<and> set [0, 1, 2] = {..<width threePixels * height threePixels}
   \<and> set [2, 1, 0] = {..<width threePixels * height threePixels}
   \<and> removeSmallRegions 3 [0, 1, 2] threePixels = removeSmallRegions 3 [2, 1, 0] threePixels"
proof -
  have a: "set [0, 1, 2] = {..<width threePixels * height threePixels}"
    by (auto simp: threePixels_facts)
  have b: "set [2, 1, 0] = {..<width threePixels * height threePixels}"
    by (auto simp: threePixels_facts)
  show ?thesis
    using regionFilter_order_independent [OF threePixels_facts(1) a b, of 3] a b
      threePixels_facts(1) by simp
qed

section \<open>Colour channels and the sampler\<close>

lemma shape_chromaKey [simp]:
  "width (chromaKey img bg tolerance) = width img"
  "height (chromaKey img bg tolerance) = height img"
  "length (data (chromaKey img bg tolerance)) = length (data img)"
  by (simp_all add: chromaKey_def)

lemma shape_erode [simp]:
  "width (erode img radius) = width img" "height (erode img radius) = height img"
  "length (data (erode img radius)) = width img * height img"
  by (simp_all add: erode_def length_rows)

lemma shape_dilate [simp]:
  "width (dilate img radius) = width img" "height (dilate img radius) = height img"
  "length (data (dilate img radius)) = width img * height img"
  by (simp_all add: dilate_def length_rows)

lemma wellFormed_chromaKey: "wellFormed img \<Longrightarrow> wellFormed (chromaKey img bg tolerance)"
  by (simp add: wellFormed_def)

lemma rgb_chromaKey: "map rgbOf (data (chromaKey img bg tolerance)) = map rgbOf (data img)"
  by (simp add: chromaKey_def rgbOf_def keyPixel_rgb)

lemma rgb_erode:
  assumes "wellFormed img"
  shows "map rgbOf (data (erode img radius)) = map rgbOf (data img)"
proof (rule nth_equalityI)
  show "length (map rgbOf (data (erode img radius))) = length (map rgbOf (data img))"
    using assms by (simp add: wellFormed_def)
next
  fix i assume "i < length (map rgbOf (data (erode img radius)))"
  then have i: "i < width img * height img" by simp
  then have "i < length (data img)" using assms by (simp add: wellFormed_def)
  then show "map rgbOf (data (erode img radius)) ! i = map rgbOf (data img) ! i"
    using i by (simp add: erode_nth erodePixel_def rgbOf_def Let_def)
qed

lemma rgb_dilate:
  assumes "wellFormed img"
  shows "map rgbOf (data (dilate img radius)) = map rgbOf (data img)"
proof (rule nth_equalityI)
  show "length (map rgbOf (data (dilate img radius))) = length (map rgbOf (data img))"
    using assms by (simp add: wellFormed_def)
next
  fix i assume "i < length (map rgbOf (data (dilate img radius)))"
  then have i: "i < width img * height img" by simp
  then have "i < length (data img)" using assms by (simp add: wellFormed_def)
  then show "map rgbOf (data (dilate img radius)) ! i = map rgbOf (data img) ! i"
    using i by (simp add: dilate_nth dilatePixel_def rgbOf_def Let_def)
qed

lemma rgb_regionFilter:
  assumes "wellFormed img"
  shows "map rgbOf (data (regionFilter minRegionSize img)) = map rgbOf (data img)"
proof (rule nth_equalityI)
  show "length (map rgbOf (data (regionFilter minRegionSize img))) = length (map rgbOf (data img))"
    using regionFilter_shape [OF assms, of minRegionSize] by simp
next
  fix i assume "i < length (map rgbOf (data (regionFilter minRegionSize img)))"
  then have l: "i < length (data img)"
    using regionFilter_shape [OF assms, of minRegionSize] by simp
  then have i: "i < width img * height img" using assms by (simp add: wellFormed_def)
  have "i < length (data (regionFilter minRegionSize img))"
    using l regionFilter_shape [OF assms, of minRegionSize] by simp
  then show "map rgbOf (data (regionFilter minRegionSize img)) ! i = map rgbOf (data img) ! i"
    using l by (simp add: regionFilter_nth [OF assms i] rgbOf_filteredPixel)
qed

lemma wellFormed_cleaned: "wellFormed (cleaned img bg tolerance)"
  by (simp add: cleaned_def wellFormed_dilate)

lemma removeBackgroundColor_cleaned:
  "removeBackgroundColor img bg tolerance = regionFilter 50 (cleaned img bg tolerance)"
  by (simp add: removeBackgroundColor_def cleaned_def Let_def)

lemma rgb_cleaned:
  assumes "wellFormed img"
  shows "map rgbOf (data (cleaned img bg tolerance)) = map rgbOf (data img)"
proof -
  let ?k = "chromaKey img bg tolerance"
  have k: "wellFormed ?k" using assms by (rule wellFormed_chromaKey)
  have "map rgbOf (data (cleaned img bg tolerance)) = map rgbOf (data ?k)"
    unfolding cleaned_def
    by (simp add: rgb_dilate rgb_erode wellFormed_dilate wellFormed_erode k)
  then show ?thesis by (simp add: rgb_chromaKey)
qed

text \<open>
  C8: the chroma key, an erosion pass, a dilation pass, the region filter and the whole
  pipeline each leave the red, green and blue channels of every pixel as they were.
\<close>

theorem stages_keep_rgb:
  assumes "wellFormed img"
  shows "map rgbOf (data (chromaKey img bg tolerance)) = map rgbOf (data img)
     \<and> map rgbOf (data (erode img radius)) = map rgbOf (data img)
     \<and> map rgbOf (data (dilate img radius)) = map rgbOf (data img)
     \<and> map rgbOf (data (regionFilter minRegionSize img)) = map rgbOf (data img)
     \<and> map rgbOf (data (removeBackgroundColor img bg tolerance)) = map rgbOf (data img)"
  using assms
  by (simp add: rgb_chromaKey rgb_erode rgb_dilate rgb_regionFilter
      removeBackgroundColor_cleaned wellFormed_cleaned rgb_cleaned)

theorem stages_keep_rgb_witness:
  "wellFormed twoPixels
   \<and> map rgbOf (data (chromaKey twoPixels greenKey 50)) = [(255, 0, 0), (0, 255, 0)]
   \<and> map rgbOf (data (erode twoPixels 1)) = [(255, 0, 0), (0, 255, 0)]
   \<and> map rgbOf (data (dilate twoPixels 1)) = [(255, 0, 0), (0, 255, 0)]
   \<and> map rgbOf (data (regionFilter 50 twoPixels)) = [(255, 0, 0), (0, 255, 0)]
   \<and> map rgbOf (data (removeBackgroundColor twoPixels greenKey 50)) = [(255, 0, 0), (0, 255, 0)]"
proof -
  have "map rgbOf (data twoPixels) = [(255, 0, 0), (0, 255, 0)]"
    by (simp add: twoPixels_def rgbOf_def redPixel_def greenPixel_def)
  then show ?thesis
    using stages_keep_rgb [OF twoPixels_facts(1), of greenKey 50 1 50] twoPixels_facts(1)
    by simp
qed


section \<open>The end-to-end scenario and the fixed threshold\<close>

lemma neighbourhood_in_range:
  assumes "n \<in> set (neighbourhood img radius y x)"
  shows "n < width img * height img"
proof -
  obtain ny nx :: int where n: "n = nat (ny * int (width img) + nx)"
    and b: "0 \<le> ny" "ny < int (height img)" "0 \<le> nx" "nx < int (width img)"
    using assms by (auto simp: neighbourhood_def Let_def split: if_splits)
  have "ny + 1 \<le> int (height img)" using b(2) by simp
  then have "(ny + 1) * int (width img) \<le> int (height img) * int (width img)"
    by (rule mult_right_mono) simp
  then have "ny * int (width img) + nx < int (height img) * int (width img)"
    using b(4) by (simp add: algebra_simps)
  moreover have "0 \<le> ny * int (width img) + nx" using b(1,3) by simp
  ultimately have "nat (ny * int (width img) + nx) < nat (int (height img) * int (width img))"
    by (simp only: nat_mono_iff)
  then show ?thesis by (simp add: n nat_mult_distrib mult.commute)
qed

lemma fold_max_zero:
  assumes "\<forall>n \<in> set ns. g n = (0::u8)"
  shows "fold (\<lambda>n m. max m (g n)) ns 0 = 0"
  using assms by (induction ns) simp_all

lemma allTransparent_nth:
  "allTransparent img \<Longrightarrow> i < length (data img) \<Longrightarrow> alpha (data img ! i) = 0"
  by (simp add: allTransparent_def)

lemma allTransparentI:
  assumes "\<And>i. i < length (data img) \<Longrightarrow> alpha (data img ! i) = 0"
  shows "allTransparent img"
  unfolding allTransparent_def using assms by (auto simp: in_set_conv_nth)

lemma erode_transparent:
  assumes "wellFormed img" and "allTransparent img"
  shows "allTransparent (erode img radius)"
proof (rule allTransparentI)
  fix i assume "i < length (data (erode img radius))"
  then have i: "i < width img * height img" by simp
  then have "alpha (data img ! i) = 0"
    using assms by (simp add: allTransparent_nth wellFormed_def)
  then show "alpha (data (erode img radius) ! i) = 0"
    using erode_alpha_le [OF i, of radius] by simp
qed

lemma dilate_transparent:
  assumes "wellFormed img" and "allTransparent img"
  shows "allTransparent (dilate img radius)"
proof (rule allTransparentI)
  fix i assume "i < length (data (dilate img radius))"
  then have i: "i < width img * height img" by simp
  have len: "length (data img) = width img * height img"
    using assms(1) by (simp add: wellFormed_def)
  have own: "alpha (data img ! (i div width img * width img + i mod width img)) = 0"
    using assms(2) i len by (simp add: allTransparent_nth)
  have "\<forall>n \<in> set (neighbourhood img radius (i div width img) (i mod width img)).
      alpha (data img ! n) = 0"
    using neighbourhood_in_range assms(2) len by (simp add: allTransparent_nth)
  then have "maxAlpha img radius (i div width img) (i mod width img) = 0"
    unfolding maxAlpha_def own by (rule fold_max_zero)
  then show "alpha (data (dilate img radius) ! i) = 0"
    using i by (simp add: dilate_nth dilatePixel_def Let_def)
qed

lemma regionFilter_transparent:
  assumes "wellFormed img" and "allTransparent img"
  shows "allTransparent (regionFilter minRegionSize img)"
proof (rule allTransparentI)
  fix i assume "i < length (data (regionFilter minRegionSize img))"
  then have l: "i < length (data img)"
    using regionFilter_shape [OF assms(1), of minRegionSize] by simp
  then have i: "i < width img * height img" using assms(1) by (simp add: wellFormed_def)
  have "alpha (data img ! i) = 0" using assms(2) l by (rule allTransparent_nth)
  then show "alpha (data (regionFilter minRegionSize img) ! i) = 0"
    by (simp add: regionFilter_nth [OF assms(1) i] alpha_filteredPixel)
qed

lemma allTransparent_replicate:
  assumes "allTransparent img"
  shows "map alpha (data img) = replicate (length (data img)) 0"
  using assms by (intro replicate_eqI) (auto simp: allTransparent_def)

lemma chromaKey_scenario: "chromaKey scenario greenKey 50 = keyedScenario"
  by (simp add: chromaKey_def scenario_def keyedScenario_def keyPixel_redPixel
      keyPixel_greenPixel if_distrib [of "keyPixel greenKey 50"] del: upt.simps)

lemma erode_keyedScenario: "map alpha (data (erode keyedScenario 1)) = replicate 100 0"
  by code_simp

lemma scenario_eroded: "allTransparent (erode (chromaKey scenario greenKey 50) 1)"
proof (rule allTransparentI)
  fix i assume "i < length (data (erode (chromaKey scenario greenKey 50) 1))"
  then have i: "i < 100" by (simp add: scenario_def)
  have "alpha (data (erode keyedScenario 1) ! i) = map alpha (data (erode keyedScenario 1)) ! i"
    using i by (simp add: keyedScenario_def)
  also have "\<dots> = 0" using i by (simp only: erode_keyedScenario nth_replicate)
  finally show "alpha (data (erode (chromaKey scenario greenKey 50) 1) ! i) = 0"
    by (simp add: chromaKey_scenario)
qed

lemma scenario_filtered:
  "map alpha (data (regionFilter minRegionSize (cleaned scenario greenKey 50))) = replicate 100 0"
proof -
  let ?e1 = "erode (chromaKey scenario greenKey 50) 1"
  have e2: "allTransparent (erode ?e1 1)"
    using wellFormed_erode scenario_eroded by (rule erode_transparent)
  have d1: "allTransparent (dilate (erode ?e1 1) 1)"
    using wellFormed_erode e2 by (rule dilate_transparent)
  have d2: "allTransparent (dilate (dilate (erode ?e1 1) 1) 1)"
    using wellFormed_dilate d1 by (rule dilate_transparent)
  then have "allTransparent (cleaned scenario greenKey 50)" by (simp add: cleaned_def)
  then have "allTransparent (regionFilter minRegionSize (cleaned scenario greenKey 50))"
    using wellFormed_cleaned by (simp add: regionFilter_transparent)
  then have "map alpha (data (regionFilter minRegionSize (cleaned scenario greenKey 50)))
      = replicate (length (data (regionFilter minRegionSize (cleaned scenario greenKey 50)))) 0"
    by (rule allTransparent_replicate)
  moreover have "length (data (regionFilter minRegionSize (cleaned scenario greenKey 50))) = 100"
    using regionFilter_shape [OF wellFormed_cleaned, of minRegionSize scenario greenKey 50]
    by (simp add: cleaned_def scenario_def)
  ultimately show ?thesis by simp
qed

lemma nth_all_zero:
  assumes "map alpha ps = replicate n 0" and "i < n"
  shows "alpha (ps ! i) = 0"
proof -
  have "length ps = n" using assms(1) by (metis length_map length_replicate)
  then have "alpha (ps ! i) = map alpha ps ! i" using assms(2) by simp
  then show ?thesis using assms by simp
qed

lemma specPipeline_cleaned:
  "specPipeline minRegionSize img bg tolerance = regionFilter minRegionSize (cleaned img bg tolerance)"
  by (simp add: specPipeline_def cleaned_def)

text \<open>
  C1, as stated, fails: the red pixel at (4, 4) is opaque in the input and transparent in
  the output, with the region threshold 1 of the scenario as with the threshold 50 of the
  source.
\<close>

theorem scenario_red_square_counterexample:
  "alpha (data scenario ! 44) = 255
   \<and> alpha (data (specPipeline 1 scenario greenKey 50) ! 44) = 0
   \<and> alpha (data (removeBackgroundColor scenario greenKey 50) ! 44) = 0"
proof -
  have a: "alpha (data (specPipeline 1 scenario greenKey 50) ! 44) = 0"
    unfolding specPipeline_cleaned by (rule nth_all_zero [OF scenario_filtered]) simp
  have b: "alpha (data (removeBackgroundColor scenario greenKey 50) ! 44) = 0"
    unfolding removeBackgroundColor_cleaned by (rule nth_all_zero [OF scenario_filtered]) simp
  have "alpha (data scenario ! 44) = 255" by (simp add: scenario_def redPixel_def)
  then show ?thesis using a b by simp
qed

text \<open>
  C1, amended: on the 10 x 10 green image with the 2 x 2 red square, key colour green and
  tolerance 50, the pipeline returns alpha 0 on every pixel, the four red ones included.
  Every red pixel has a keyed-out green neighbour, so the first erosion clears it, and
  dilation has nothing left to grow.
\<close>

theorem scenario_all_transparent:
  "map alpha (data (specPipeline 1 scenario greenKey 50)) = replicate 100 0
   \<and> map alpha (data (removeBackgroundColor scenario greenKey 50)) = replicate 100 0"
  by (simp add: specPipeline_cleaned removeBackgroundColor_cleaned scenario_filtered)

lemma chromaKey_speck: "chromaKey speck greenKey 50 = speck"
  by (simp add: chromaKey_def speck_def keyPixel_redPixel)

lemma morphology_speck: "dilate (dilate (erode (erode speck 1) 1) 1) 1 = speck"
  by code_simp

lemma cleaned_speck: "cleaned speck greenKey 50 = speck"
  by (simp add: cleaned_def chromaKey_speck morphology_speck)

lemma speck_facts:
  "wellFormed speck" "width speck = 1" "height speck = 1" "opaqueAt (data speck) 0"
  "alpha (data speck ! 0) = 255" "pushNeighbors 1 1 0 = []"
  by (simp_all add: wellFormed_def speck_def opaqueAt_def redPixel_def pushNeighbors_def)

lemma region_speck: "connectedRegion 1 1 (data speck) 0 = {0}"
  using speck_facts(4) by (rule isolated_region) (use speck_facts(6) in simp)

text \<open>
  C3, as stated, fails: \<open>removeBackgroundColor\<close> takes the image, the key colour and the
  tolerance only, and its region filter runs with 50. A single opaque pixel, which a
  threshold of 1 supplied by the caller would keep, is removed.
\<close>

theorem fixed_threshold_counterexample:
  "alpha (data (specPipeline 1 speck greenKey 50) ! 0) = 255
   \<and> alpha (data (removeBackgroundColor speck greenKey 50) ! 0) = 0"
proof -
  have in0: "0 \<in> connectedRegion (width speck) (height speck) (data speck) 0"
    by (simp only: speck_facts region_speck) simp
  have c: "card (connectedRegion (width speck) (height speck) (data speck) 0) = 1"
    by (simp only: speck_facts region_speck) simp
  have "alpha (data (regionFilter 1 speck) ! 0) = 255"
    using regionFilter_region_alpha [OF speck_facts(1) in0, of 1] c speck_facts(5) by simp
  moreover have "alpha (data (regionFilter 50 speck) ! 0) = 0"
    using regionFilter_region_alpha [OF speck_facts(1) in0, of 50] c by simp
  ultimately show ?thesis
    by (simp add: specPipeline_cleaned removeBackgroundColor_cleaned cleaned_speck)
qed

text \<open>
  C3, amended: the threshold of the final cleanup stage is the constant 50 inside
  \<open>removeBackgroundColor\<close>, not an input. The pipeline is the specified one at
  \<open>minRegionSize = 50\<close>: a region of the cleaned image with fewer than 50 pixels has every
  alpha set to 0, and a region of 50 pixels or more keeps its alpha values.
\<close>

theorem removeBackgroundColor_threshold_fixed:
  assumes "j \<in> connectedRegion (width img) (height img) (data (cleaned img bg tolerance)) s"
  shows "removeBackgroundColor img bg tolerance = specPipeline 50 img bg tolerance
     \<and> alpha (data (removeBackgroundColor img bg tolerance) ! j) =
     (if card (connectedRegion (width img) (height img) (data (cleaned img bg tolerance)) s) < 50
      then 0 else alpha (data (cleaned img bg tolerance) ! j))"
proof -
  have w: "width (cleaned img bg tolerance) = width img"
    "height (cleaned img bg tolerance) = height img"
    by (simp_all add: cleaned_def)
  show ?thesis
    using regionFilter_region_alpha [OF wellFormed_cleaned, of j img bg tolerance s 50] assms
    by (simp add: removeBackgroundColor_cleaned specPipeline_cleaned w)
qed

theorem removeBackgroundColor_threshold_fixed_witness:
  "0 \<in> connectedRegion (width speck) (height speck) (data (cleaned speck greenKey 50)) 0
   \<and> card (connectedRegion (width speck) (height speck) (data (cleaned speck greenKey 50)) 0) = 1
   \<and> alpha (data (cleaned speck greenKey 50) ! 0) = 255
   \<and> alpha (data (removeBackgroundColor speck greenKey 50) ! 0) = 0"
proof -
  have in0: "0 \<in> connectedRegion (width speck) (height speck) (data (cleaned speck greenKey 50)) 0"
    by (simp only: cleaned_speck speck_facts region_speck) simp
  have c: "card (connectedRegion (width speck) (height speck) (data (cleaned speck greenKey 50)) 0) = 1"
    by (simp only: cleaned_speck speck_facts region_speck) simp
  have a: "alpha (data (cleaned speck greenKey 50) ! 0) = 255"
    by (simp add: cleaned_speck speck_facts)
  show ?thesis
    using removeBackgroundColor_threshold_fixed [OF in0, THEN conjunct2] in0 c a by simp
qed

end
